theory Spec2Isabelle
  imports Main "HOL-Library.Sublist"
begin

section \<open>String primitives of the host language\<close>

text \<open>
  The reader of \<open>src/index.ts\<close> works on latin1-decoded strings, so a string is a list
  of 8-bit characters. The string methods it calls are modelled with their full
  behaviour on the arguments the reader can pass.
\<close>

text \<open>\<open>s.lastIndexOf(sep)\<close>: the largest index at which \<open>sep\<close> occurs in \<open>s\<close>, or \<open>-1\<close>.\<close>

primrec lastIndexOf :: "string \<Rightarrow> string \<Rightarrow> int" where
  "lastIndexOf [] sep = (if sep = [] then 0 else - 1)"
| "lastIndexOf (c # cs) sep =
     (let r = lastIndexOf cs sep
      in if 0 \<le> r then r + 1
         else if take (length sep) (c # cs) = sep then 0
         else - 1)"

text \<open>\<open>s.slice(b, e)\<close> and \<open>s.slice(b)\<close>: negative indices count from the end, and both
  indices are clamped to the string.\<close>

definition slice_index :: "string \<Rightarrow> int \<Rightarrow> nat" where
  "slice_index s i =
     (let n = int (length s) in nat (if i < 0 then max (n + i) 0 else min i n))"

definition slice :: "string \<Rightarrow> int \<Rightarrow> int \<Rightarrow> string" where
  "slice s b e = take (slice_index s e - slice_index s b) (drop (slice_index s b) s)"

definition slice_from :: "string \<Rightarrow> int \<Rightarrow> string" where
  "slice_from s b = drop (slice_index s b) s"

text \<open>\<open>s.split(sep)\<close>: the scan goes left to right; where \<open>sep\<close> starts, the current
  piece is closed and the scan jumps behind the separator. An empty separator gives the
  single characters.\<close>

definition cons_hd :: "char \<Rightarrow> string list \<Rightarrow> string list" where
  "cons_hd c ps = (case ps of [] \<Rightarrow> [[c]] | l # ls \<Rightarrow> (c # l) # ls)"

function split_js :: "string \<Rightarrow> string \<Rightarrow> string list" where
  "split_js s sep =
     (if sep = [] then map (\<lambda>c. [c]) s
      else if s = [] then [[]]
      else if take (length sep) s = sep then [] # split_js (drop (length sep) s) sep
      else cons_hd (hd s) (split_js (tl s) sep))"
  by pat_completeness auto
termination
  by (relation "measure (\<lambda>(s, sep). length s)") auto

declare split_js.simps [simp del]

section \<open>The record classes\<close>

text \<open>\<open>CidRecord\<close>: the constructor splits the row on the bare semicolon and stores the
  pieces in \<open>$columns\<close>.\<close>

record CidRecord =
  columns :: "string list"

definition CidRecord :: "string \<Rightarrow> CidRecord" where
  "CidRecord row = \<lparr>columns = split_js row '';''\<rparr>"

text \<open>Reading \<open>$columns[i]\<close> gives \<open>undefined\<close> beyond the last column, and calling
  a method on \<open>undefined\<close> throws a \<open>TypeError\<close>.\<close>

datatype js_error = TypeError

definition column :: "CidRecord \<Rightarrow> nat \<Rightarrow> string option" where
  "column r i = (if i < length (columns r) then Some (columns r ! i) else None)"

text \<open>\<open>Cid10Chapter\<close> extends \<open>CidRecord\<close> and inherits its constructor.\<close>

definition Cid10Chapter :: "string \<Rightarrow> CidRecord" where
  "Cid10Chapter row = CidRecord row"

definition ABBREVIATION :: nat where
  "ABBREVIATION = 4"

text \<open>The pattern \<open>/^([IVXLCDM]+)\.\s*/\<close> shared by the two getters: the longest run of
  roman digits at the start, which must not be empty, then a dot, then all the white space
  that follows. The result is the captured run and what is left behind the match.\<close>

definition is_roman :: "char \<Rightarrow> bool" where
  "is_roman c \<longleftrightarrow> c \<in> set ''IVXLCDM''"

definition is_space :: "char \<Rightarrow> bool" where
  "is_space c \<longleftrightarrow>
     c \<in> {CHR 0x09, CHR 0x0A, CHR 0x0B, CHR 0x0C, CHR 0x0D, CHR 0x20, CHR 0xA0}"

definition roman_prefix :: "string \<Rightarrow> (string \<times> string) option" where
  "roman_prefix v =
     (let num = takeWhile is_roman v; rest = dropWhile is_roman v
      in if num \<noteq> [] \<and> take 1 rest = ''.''
         then Some (num, dropWhile is_space (drop 1 rest))
         else None)"

text \<open>The getters \<open>roman\<close> and \<open>abbreviation\<close> of \<open>Cid10Chapter\<close>.\<close>

definition Cid10Chapter_roman :: "CidRecord \<Rightarrow> js_error + string option" where
  "Cid10Chapter_roman r =
     (case column r ABBREVIATION of
        None \<Rightarrow> Inl TypeError
      | Some v \<Rightarrow> Inr (map_option fst (roman_prefix v)))"

definition Cid10Chapter_abbreviation :: "CidRecord \<Rightarrow> js_error + string" where
  "Cid10Chapter_abbreviation r =
     (case column r ABBREVIATION of
        None \<Rightarrow> Inl TypeError
      | Some v \<Rightarrow> Inr (case roman_prefix v of None \<Rightarrow> v | Some (num, rest) \<Rightarrow> rest))"

section \<open>The reading state of one call of \<open>cidTableStream\<close>\<close>

definition LINEBRK :: string where
  "LINEBRK = [CHR '';'', CHR 0x0D, CHR 0x0A]"

text \<open>Whatever can be thrown inside the generating loop: the private symbol \<open>SKIPERR\<close>
  or the error of the stream.\<close>

datatype 'e thrown = SKIPERR | StreamError 'e

text \<open>Where the generator stands between two turns of the event loop: at the head of
  the \<open>while\<close> loop (also while suspended at a \<open>yield\<close>, whose rows are already
  fixed), inside a pending promise whose executor was rescheduled with
  \<open>setImmediate\<close>, returned, or finished by throwing.\<close>

datatype 'e control = LoopHead | Awaiting | Returned | Thrown "'e thrown"

record ('e, 'r) reader =
  streamError :: "'e option"
  streamEnd :: bool
  buffer :: string
  rowsQueue :: "string list"
  breakLoop :: bool
  skip :: bool
  yielded :: "'r list"
  control :: "'e control"

definition init :: "('e, 'r) reader" where
  "init = \<lparr>streamError = None, streamEnd = False, buffer = [], rowsQueue = [],
           breakLoop = False, skip = True, yielded = [], control = LoopHead\<rparr>"

text \<open>The \<open>'data'\<close> callback \<open>read\<close>.\<close>

definition read :: "string \<Rightarrow> ('e, 'r) reader \<Rightarrow> ('e, 'r) reader" where
  "read chunk s =
     (let buf = buffer s @ chunk;
          end = lastIndexOf buf LINEBRK
      in if 0 \<le> end
         then s\<lparr>buffer := slice_from buf (end + int (length LINEBRK)),
                rowsQueue := rowsQueue s @ [slice buf 0 end]\<rparr>
         else s\<lparr>buffer := buf\<rparr>)"

text \<open>The executor \<open>nextRowsQueue\<close> of the promise the loop awaits: it settles the
  promise (resolving with the whole queue, or rejecting) or reschedules itself with
  \<open>setImmediate\<close>.\<close>

datatype 'e settled = Resolve "string list" | Reject "'e thrown" | Reschedule

definition nextRowsQueue :: "('e, 'r) reader \<Rightarrow> 'e settled \<times> ('e, 'r) reader" where
  "nextRowsQueue s =
     (case streamError s of
        Some err \<Rightarrow> (Reject (StreamError err), s)
      | None \<Rightarrow>
          if 0 < length (rowsQueue s)
          then (Resolve (rowsQueue s),
                s\<lparr>rowsQueue := [],
                  breakLoop := (length (buffer s) = 0 \<and> streamEnd s)\<rparr>)
          else if \<not> streamEnd s then (Reschedule, s)
          else (Reject SKIPERR, s))"

text \<open>The body of the innermost loop: the first row seen is dropped, every other row
  is given to \<open>Factory\<close> and yielded.\<close>

definition yield_row :: "(string \<Rightarrow> 'r) \<Rightarrow> string \<Rightarrow> ('e, 'r) reader \<Rightarrow> ('e, 'r) reader" where
  "yield_row Factory row s =
     (if \<not> skip s then s\<lparr>yielded := yielded s @ [Factory row]\<rparr>
      else s\<lparr>skip := False\<rparr>)"

definition for_rows :: "(string \<Rightarrow> 'r) \<Rightarrow> string \<Rightarrow> ('e, 'r) reader \<Rightarrow> ('e, 'r) reader" where
  "for_rows Factory completeRows s =
     fold (yield_row Factory) (split_js completeRows LINEBRK) s"

definition for_queue :: "(string \<Rightarrow> 'r) \<Rightarrow> string list \<Rightarrow> ('e, 'r) reader \<Rightarrow> ('e, 'r) reader" where
  "for_queue Factory queue s = fold (for_rows Factory) queue s"

text \<open>What follows the \<open>try\<close> block, and its \<open>catch\<close> clause.\<close>

definition after_loop :: "('e, 'r) reader \<Rightarrow> ('e, 'r) reader" where
  "after_loop s =
     (case streamError s of
        Some err \<Rightarrow> s\<lparr>control := Thrown (StreamError err)\<rparr>
      | None \<Rightarrow> s\<lparr>control := Returned\<rparr>)"

definition catch_loop :: "'e thrown \<Rightarrow> ('e, 'r) reader \<Rightarrow> ('e, 'r) reader" where
  "catch_loop loopError s =
     (if loopError \<noteq> SKIPERR then s\<lparr>control := Thrown loopError\<rparr> else after_loop s)"

text \<open>One run of the executor and what the loop does with its outcome.\<close>

definition await_queue :: "(string \<Rightarrow> 'r) \<Rightarrow> ('e, 'r) reader \<Rightarrow> ('e, 'r) reader" where
  "await_queue Factory s =
     (case nextRowsQueue s of
        (Resolve queue, s') \<Rightarrow> (for_queue Factory queue s')\<lparr>control := LoopHead\<rparr>
      | (Reschedule, s') \<Rightarrow> s'\<lparr>control := Awaiting\<rparr>
      | (Reject loopError, s') \<Rightarrow> catch_loop loopError s')"

text \<open>One turn of the generator: from the head of the \<open>while\<close> loop the condition is
  tested and the executor runs at once; a rescheduled executor runs alone; a finished
  generator does nothing.\<close>

definition pull :: "(string \<Rightarrow> 'r) \<Rightarrow> ('e, 'r) reader \<Rightarrow> ('e, 'r) reader" where
  "pull Factory s =
     (case control s of
        LoopHead \<Rightarrow>
          if \<not> breakLoop s \<and> streamError s = None then await_queue Factory s
          else after_loop s
      | Awaiting \<Rightarrow> await_queue Factory s
      | Returned \<Rightarrow> s
      | Thrown x \<Rightarrow> s)"

text \<open>The event loop delivers the stream's events to the three callbacks and gives the
  generator its turns, in some order.\<close>

datatype 'e event = Data string | End | Error 'e | Pull

definition step :: "(string \<Rightarrow> 'r) \<Rightarrow> 'e event \<Rightarrow> ('e, 'r) reader \<Rightarrow> ('e, 'r) reader" where
  "step Factory ev s =
     (case ev of
        Data chunk \<Rightarrow> read chunk s
      | End \<Rightarrow> s\<lparr>streamEnd := True\<rparr>
      | Error err \<Rightarrow> s\<lparr>streamError := Some err\<rparr>
      | Pull \<Rightarrow> pull Factory s)"

definition exec :: "(string \<Rightarrow> 'r) \<Rightarrow> 'e event list \<Rightarrow> ('e, 'r) reader \<Rightarrow> ('e, 'r) reader" where
  "exec Factory sched s = fold (step Factory) sched s"

text \<open>What the caller of \<open>cidTableStream\<close> observes: the rows yielded and how the
  generator stands, after the schedule \<open>sched\<close> of events and \<open>n\<close> further turns of
  the generator once the stream is silent.\<close>

definition cidTableStream ::
  "(string \<Rightarrow> 'r) \<Rightarrow> 'e event list \<Rightarrow> nat \<Rightarrow> 'r list \<times> 'e control" where
  "cidTableStream Factory sched n =
     (let s = (pull Factory ^^ n) (exec Factory sched init) in (yielded s, control s))"

text \<open>The events of the stream in a schedule, and the chunks among them.\<close>

definition source_events :: "'e event list \<Rightarrow> 'e event list" where
  "source_events sched = filter (\<lambda>ev. ev \<noteq> Pull) sched"

text \<open>The reference the reader is compared with: the whole content is split on the
  terminator, the piece behind the last terminator is no line, and the first line is
  the header.\<close>

definition complete_lines :: "string \<Rightarrow> string list" where
  "complete_lines content = butlast (split_js content LINEBRK)"

definition reference_rows :: "(string \<Rightarrow> 'r) \<Rightarrow> string \<Rightarrow> 'r list" where
  "reference_rows Factory content = map Factory (tl (complete_lines content))"

section \<open>Two calls on one heap\<close>

text \<open>The variables of the reading state are bindings created when the body of
  \<open>cidTableStream\<close> is entered, and the callbacks of a call reach them through the
  scope they closed over. To speak of two calls at once, the variables live in one heap
  of cells: a call allocates a cell for each of its variables (and for the position and
  the output of its generator), and its callbacks read and write the cells of its frame.\<close>

type_synonym addr = nat

datatype ('e, 'r) val =
  VErr "'e option" | VBool bool | VStr string | VQueue "string list"
  | VRows "'r list" | VCtl "'e control"

record ('e, 'r) heap =
  cells :: "addr \<Rightarrow> ('e, 'r) val"
  free :: addr

record frame =
  streamError_at :: addr
  streamEnd_at :: addr
  buffer_at :: addr
  rowsQueue_at :: addr
  breakLoop_at :: addr
  skip_at :: addr
  yielded_at :: addr
  control_at :: addr

definition addrs :: "frame \<Rightarrow> addr list" where
  "addrs fr = [streamError_at fr, streamEnd_at fr, buffer_at fr, rowsQueue_at fr,
               breakLoop_at fr, skip_at fr, yielded_at fr, control_at fr]"

text \<open>A declaration takes the next free cell.\<close>

definition alloc :: "('e, 'r) val \<Rightarrow> ('e, 'r) heap \<Rightarrow> addr \<times> ('e, 'r) heap" where
  "alloc v h = (free h, \<lparr>cells = (cells h)(free h := v), free = Suc (free h)\<rparr>)"

text \<open>Entering \<open>cidTableStream\<close>: the declarations of the reading state, of \<open>skip\<close>,
  and the fresh generator, in the order of the source.\<close>

definition enter :: "('e, 'r) heap \<Rightarrow> frame \<times> ('e, 'r) heap" where
  "enter h0 =
     (let (a1, h1) = alloc (VErr None) h0;
          (a2, h2) = alloc (VBool False) h1;
          (a3, h3) = alloc (VStr []) h2;
          (a4, h4) = alloc (VQueue []) h3;
          (a5, h5) = alloc (VBool False) h4;
          (a6, h6) = alloc (VBool True) h5;
          (a7, h7) = alloc (VRows []) h6;
          (a8, h8) = alloc (VCtl LoopHead) h7
      in (\<lparr>streamError_at = a1, streamEnd_at = a2, buffer_at = a3, rowsQueue_at = a4,
           breakLoop_at = a5, skip_at = a6, yielded_at = a7, control_at = a8\<rparr>, h8))"

text \<open>Reading and writing one variable.\<close>

definition get_err :: "('e, 'r) heap \<Rightarrow> addr \<Rightarrow> 'e option" where
  "get_err h a = (case cells h a of VErr x \<Rightarrow> x | _ \<Rightarrow> None)"

definition get_bool :: "('e, 'r) heap \<Rightarrow> addr \<Rightarrow> bool" where
  "get_bool h a = (case cells h a of VBool b \<Rightarrow> b | _ \<Rightarrow> False)"

definition get_str :: "('e, 'r) heap \<Rightarrow> addr \<Rightarrow> string" where
  "get_str h a = (case cells h a of VStr s \<Rightarrow> s | _ \<Rightarrow> [])"

definition get_queue :: "('e, 'r) heap \<Rightarrow> addr \<Rightarrow> string list" where
  "get_queue h a = (case cells h a of VQueue q \<Rightarrow> q | _ \<Rightarrow> [])"

definition get_rows :: "('e, 'r) heap \<Rightarrow> addr \<Rightarrow> 'r list" where
  "get_rows h a = (case cells h a of VRows rs \<Rightarrow> rs | _ \<Rightarrow> [])"

definition get_ctl :: "('e, 'r) heap \<Rightarrow> addr \<Rightarrow> 'e control" where
  "get_ctl h a = (case cells h a of VCtl c \<Rightarrow> c | _ \<Rightarrow> LoopHead)"

definition put :: "addr \<Rightarrow> ('e, 'r) val \<Rightarrow> ('e, 'r) heap \<Rightarrow> ('e, 'r) heap" where
  "put a v h = h\<lparr>cells := (cells h)(a := v)\<rparr>"

text \<open>The callbacks and the generating loop once more, statement by statement, on the
  cells of the frame \<open>fr\<close> of their call.\<close>

definition h_read :: "frame \<Rightarrow> string \<Rightarrow> ('e, 'r) heap \<Rightarrow> ('e, 'r) heap" where
  "h_read fr chunk h =
     (let h1 = put (buffer_at fr) (VStr (get_str h (buffer_at fr) @ chunk)) h;
          end = lastIndexOf (get_str h1 (buffer_at fr)) LINEBRK
      in if 0 \<le> end
         then let completeRows = slice (get_str h1 (buffer_at fr)) 0 end;
                  h2 = put (buffer_at fr)
                         (VStr (slice_from (get_str h1 (buffer_at fr))
                                  (end + int (length LINEBRK)))) h1
              in put (rowsQueue_at fr)
                   (VQueue (get_queue h2 (rowsQueue_at fr) @ [completeRows])) h2
         else h1)"

definition h_nextRowsQueue :: "frame \<Rightarrow> ('e, 'r) heap \<Rightarrow> 'e settled \<times> ('e, 'r) heap" where
  "h_nextRowsQueue fr h =
     (case get_err h (streamError_at fr) of
        Some err \<Rightarrow> (Reject (StreamError err), h)
      | None \<Rightarrow>
          if 0 < length (get_queue h (rowsQueue_at fr))
          then (let queue = get_queue h (rowsQueue_at fr);
                    h1 = put (rowsQueue_at fr) (VQueue []) h
                in (Resolve queue,
                    put (breakLoop_at fr)
                      (VBool (length (get_str h1 (buffer_at fr)) = 0
                              \<and> get_bool h1 (streamEnd_at fr))) h1))
          else if \<not> get_bool h (streamEnd_at fr) then (Reschedule, h)
          else (Reject SKIPERR, h))"

definition h_yield_row :: "frame \<Rightarrow> (string \<Rightarrow> 'r) \<Rightarrow> string \<Rightarrow> ('e, 'r) heap \<Rightarrow> ('e, 'r) heap" where
  "h_yield_row fr Factory row h =
     (if \<not> get_bool h (skip_at fr)
      then put (yielded_at fr) (VRows (get_rows h (yielded_at fr) @ [Factory row])) h
      else put (skip_at fr) (VBool False) h)"

definition h_for_rows :: "frame \<Rightarrow> (string \<Rightarrow> 'r) \<Rightarrow> string \<Rightarrow> ('e, 'r) heap \<Rightarrow> ('e, 'r) heap" where
  "h_for_rows fr Factory completeRows h =
     fold (h_yield_row fr Factory) (split_js completeRows LINEBRK) h"

definition h_for_queue :: "frame \<Rightarrow> (string \<Rightarrow> 'r) \<Rightarrow> string list \<Rightarrow> ('e, 'r) heap \<Rightarrow> ('e, 'r) heap" where
  "h_for_queue fr Factory queue h = fold (h_for_rows fr Factory) queue h"

definition h_after_loop :: "frame \<Rightarrow> ('e, 'r) heap \<Rightarrow> ('e, 'r) heap" where
  "h_after_loop fr h =
     (case get_err h (streamError_at fr) of
        Some err \<Rightarrow> put (control_at fr) (VCtl (Thrown (StreamError err))) h
      | None \<Rightarrow> put (control_at fr) (VCtl Returned) h)"

definition h_catch_loop :: "frame \<Rightarrow> 'e thrown \<Rightarrow> ('e, 'r) heap \<Rightarrow> ('e, 'r) heap" where
  "h_catch_loop fr loopError h =
     (if loopError \<noteq> SKIPERR then put (control_at fr) (VCtl (Thrown loopError)) h
      else h_after_loop fr h)"

definition h_await_queue :: "frame \<Rightarrow> (string \<Rightarrow> 'r) \<Rightarrow> ('e, 'r) heap \<Rightarrow> ('e, 'r) heap" where
  "h_await_queue fr Factory h =
     (case h_nextRowsQueue fr h of
        (Resolve queue, h') \<Rightarrow> put (control_at fr) (VCtl LoopHead) (h_for_queue fr Factory queue h')
      | (Reschedule, h') \<Rightarrow> put (control_at fr) (VCtl Awaiting) h'
      | (Reject loopError, h') \<Rightarrow> h_catch_loop fr loopError h')"

definition h_pull :: "frame \<Rightarrow> (string \<Rightarrow> 'r) \<Rightarrow> ('e, 'r) heap \<Rightarrow> ('e, 'r) heap" where
  "h_pull fr Factory h =
     (case get_ctl h (control_at fr) of
        LoopHead \<Rightarrow>
          if \<not> get_bool h (breakLoop_at fr) \<and> get_err h (streamError_at fr) = None
          then h_await_queue fr Factory h
          else h_after_loop fr h
      | Awaiting \<Rightarrow> h_await_queue fr Factory h
      | Returned \<Rightarrow> h
      | Thrown x \<Rightarrow> h)"

definition h_step :: "frame \<Rightarrow> (string \<Rightarrow> 'r) \<Rightarrow> 'e event \<Rightarrow> ('e, 'r) heap \<Rightarrow> ('e, 'r) heap" where
  "h_step fr Factory ev h =
     (case ev of
        Data chunk \<Rightarrow> h_read fr chunk h
      | End \<Rightarrow> put (streamEnd_at fr) (VBool True) h
      | Error err \<Rightarrow> put (streamError_at fr) (VErr (Some err)) h
      | Pull \<Rightarrow> h_pull fr Factory h)"

text \<open>The reading state of a call, as its cells hold it.\<close>

definition load :: "frame \<Rightarrow> ('e, 'r) heap \<Rightarrow> ('e, 'r) reader" where
  "load fr h =
     \<lparr>streamError = get_err h (streamError_at fr), streamEnd = get_bool h (streamEnd_at fr),
      buffer = get_str h (buffer_at fr), rowsQueue = get_queue h (rowsQueue_at fr),
      breakLoop = get_bool h (breakLoop_at fr), skip = get_bool h (skip_at fr),
      yielded = get_rows h (yielded_at fr), control = get_ctl h (control_at fr)\<rparr>"

text \<open>Two calls on one event loop and one heap: an event of the first call (\<open>Inl\<close>) runs
  a callback of the first call, an event of the second call (\<open>Inr\<close>) one of the second.
  \<open>twoCalls\<close> enters \<open>cidTableStream\<close> twice, runs the schedule, gives each generator
  its further turns and reads what each caller observes.\<close>

definition two_step ::
  "frame \<Rightarrow> frame \<Rightarrow> (string \<Rightarrow> 'r) \<Rightarrow> (string \<Rightarrow> 'r) \<Rightarrow> 'e event + 'e event
     \<Rightarrow> ('e, 'r) heap \<Rightarrow> ('e, 'r) heap" where
  "two_step fr1 fr2 F G ev h =
     (case ev of Inl ev1 \<Rightarrow> h_step fr1 F ev1 h | Inr ev2 \<Rightarrow> h_step fr2 G ev2 h)"

definition twoCalls ::
  "(string \<Rightarrow> 'r) \<Rightarrow> (string \<Rightarrow> 'r) \<Rightarrow> ('e, 'r) heap \<Rightarrow> ('e event + 'e event) list
     \<Rightarrow> nat \<Rightarrow> nat \<Rightarrow> ('r list \<times> 'e control) \<times> ('r list \<times> 'e control)" where
  "twoCalls F G h0 sched n m =
     (let (fr1, h1) = enter h0;
          (fr2, h2) = enter h1;
          h3 = fold (two_step fr1 fr2 F G) sched h2;
          h4 = (h_pull fr1 F ^^ n) h3;
          h5 = (h_pull fr2 G ^^ m) h4
      in ((get_rows h5 (yielded_at fr1), get_ctl h5 (control_at fr1)),
          (get_rows h5 (yielded_at fr2), get_ctl h5 (control_at fr2))))"

text \<open>The events of each call in an interleaved schedule.\<close>

definition first_call :: "('a + 'b) list \<Rightarrow> 'a list" where
  "first_call sched = concat (map (\<lambda>ev. case ev of Inl x \<Rightarrow> [x] | Inr y \<Rightarrow> []) sched)"

definition second_call :: "('a + 'b) list \<Rightarrow> 'b list" where
  "second_call sched = concat (map (\<lambda>ev. case ev of Inl x \<Rightarrow> [] | Inr y \<Rightarrow> [y]) sched)"

section \<open>Notions used to state and prove the properties\<close>

text \<open>The lines held in a queue of batches, and the content a schedule has fed to the
  \<open>'data'\<close> callback.\<close>

definition pending :: "string list \<Rightarrow> string list" where
  "pending queue = concat (map (\<lambda>completeRows. split_js completeRows LINEBRK) queue)"

definition fed :: "'e event list \<Rightarrow> string" where
  "fed sched = concat (map (\<lambda>ev. case ev of Data chunk \<Rightarrow> chunk | _ \<Rightarrow> []) sched)"

text \<open>What holds of every reachable state, for the content \<open>C\<close> fed so far: the buffer
  holds no terminator and is what follows the last terminator of \<open>C\<close>, and the rows
  yielded together with the lines still queued are the complete lines of \<open>C\<close> without
  the first.\<close>

definition consistent :: "(string \<Rightarrow> 'r) \<Rightarrow> ('e, 'r) reader \<Rightarrow> string \<Rightarrow> bool" where
  "consistent F s C \<longleftrightarrow>
     \<not> sublist LINEBRK (buffer s)
     \<and> (\<exists>P. C = P @ buffer s \<and> (P = [] \<or> suffix LINEBRK P))
     \<and> (if skip s
        then complete_lines C = pending (rowsQueue s) \<and> yielded s = []
        else complete_lines C \<noteq> []
           \<and> map F (tl (complete_lines C)) = yielded s @ map F (pending (rowsQueue s)))"

text \<open>The states before the stream has ended or failed, and the states after it has
  ended without failing.\<close>

definition live :: "('e, 'r) reader \<Rightarrow> bool" where
  "live s \<longleftrightarrow>
     streamError s = None \<and> \<not> streamEnd s \<and> \<not> breakLoop s
     \<and> (control s = LoopHead \<or> control s = Awaiting)"

definition ended :: "('e, 'r) reader \<Rightarrow> bool" where
  "ended s \<longleftrightarrow>
     streamError s = None \<and> streamEnd s
     \<and> (control s = LoopHead \<or> control s = Awaiting \<or> control s = Returned)
     \<and> (breakLoop s \<or> control s = Returned \<longrightarrow> rowsQueue s = [])"

section \<open>Facts about the string primitives\<close>

lemma prefix_take_eq: "prefix xs ys \<longleftrightarrow> take (length xs) ys = xs"
  by (metis append_eq_conv_conj prefix_def append_take_drop_id)

lemma lastIndexOf_bounds: "- 1 \<le> lastIndexOf s sep \<and> lastIndexOf s sep \<le> int (length s)"
  by (induction s) (auto simp: Let_def)

lemma lastIndexOf_sublist: "0 \<le> lastIndexOf s sep \<longleftrightarrow> sublist sep s"
proof (induction s)
  case Nil
  show ?case by simp
next
  case (Cons c cs)
  show ?case
  proof (cases "0 \<le> lastIndexOf cs sep")
    case True
    with Cons show ?thesis by (simp add: Let_def sublist_Cons_right)
  next
    case False
    with Cons show ?thesis
      by (simp add: Let_def sublist_Cons_right prefix_take_eq)
  qed
qed

lemma slice_prefix: "0 \<le> e \<Longrightarrow> slice s 0 e = take (nat e) s"
  by (simp add: slice_def slice_index_def min_def Let_def)

lemma slice_from_drop: "0 \<le> b \<Longrightarrow> slice_from s b = drop (nat b) s"
  by (simp add: slice_from_def slice_index_def min_def Let_def)

lemma LINEBRK_length [simp]: "length LINEBRK = 3"
  by (simp add: LINEBRK_def)

lemma LINEBRK_not_Nil [simp]: "LINEBRK \<noteq> []"
  by (simp add: LINEBRK_def)

lemma lastIndexOf_last:
  assumes "\<not> sublist LINEBRK v"
  shows "lastIndexOf (u @ LINEBRK @ v) LINEBRK = int (length u)"
proof (induction u)
  case Nil
  from assms have "\<not> 0 \<le> lastIndexOf v LINEBRK"
    by (simp add: lastIndexOf_sublist)
  then show ?case by (simp add: LINEBRK_def Let_def)
next
  case (Cons c u)
  then show ?case by (simp add: Let_def)
qed

lemma lastIndexOf_found:
  assumes "sep \<noteq> []" and "0 \<le> lastIndexOf s sep"
  shows "take (length sep) (drop (nat (lastIndexOf s sep)) s) = sep
         \<and> \<not> sublist sep (drop (nat (lastIndexOf s sep) + 1) s)"
  using assms(2)
proof (induction s)
  case Nil
  with assms(1) show ?case by simp
next
  case (Cons c cs)
  show ?case
  proof (cases "0 \<le> lastIndexOf cs sep")
    case True
    with Cons.IH show ?thesis by (simp add: Let_def nat_add_distrib)
  next
    case False
    with Cons.prems have "take (length sep) (c # cs) = sep"
      by (simp add: Let_def split: if_splits)
    with False show ?thesis
      by (simp add: Let_def lastIndexOf_sublist)
  qed
qed

lemma lastIndexOf_decomp:
  assumes "0 \<le> lastIndexOf s LINEBRK"
  shows "s = take (nat (lastIndexOf s LINEBRK)) s @ LINEBRK
             @ drop (nat (lastIndexOf s LINEBRK) + 3) s
         \<and> \<not> sublist LINEBRK (drop (nat (lastIndexOf s LINEBRK) + 3) s)"
proof -
  let ?e = "nat (lastIndexOf s LINEBRK)"
  from lastIndexOf_found [OF LINEBRK_not_Nil assms]
  have occ: "take 3 (drop ?e s) = LINEBRK"
    and later: "\<not> sublist LINEBRK (drop (?e + 1) s)" by simp_all
  have "drop ?e s = take 3 (drop ?e s) @ drop 3 (drop ?e s)"
    by (rule append_take_drop_id [symmetric])
  with occ have "drop ?e s = LINEBRK @ drop (?e + 3) s" by (simp add: add.commute)
  then have "s = take ?e s @ LINEBRK @ drop (?e + 3) s"
    by (metis append_take_drop_id)
  moreover have "sublist (drop (?e + 3) s) (drop (?e + 1) s)"
    by (metis add.commute add_2_eq_Suc' drop_drop sublist_drop numeral_3_eq_3 add_Suc_right One_nat_def plus_1_eq_Suc)
  with later have "\<not> sublist LINEBRK (drop (?e + 3) s)"
    using sublist_order.order_trans by blast
  ultimately show ?thesis by simp
qed

lemma split_js_none:
  assumes "sep \<noteq> []"
  shows "\<not> sublist sep s \<Longrightarrow> split_js s sep = [s]"
proof (induction s)
  case Nil
  with assms show ?case by (simp add: split_js.simps)
next
  case (Cons c cs)
  from Cons.prems have "\<not> sublist sep cs" and "take (length sep) (c # cs) \<noteq> sep"
    by (auto simp: sublist_Cons_right prefix_take_eq)
  with Cons.IH assms show ?case
    by (subst split_js.simps) (simp add: cons_hd_def)
qed

lemma split_js_not_Nil: "sep \<noteq> [] \<Longrightarrow> split_js s sep \<noteq> []"
  by (induction s sep rule: split_js.induct) (subst split_js.simps, simp add: cons_hd_def split: list.splits)

lemma cons_hd_append: "ps \<noteq> [] \<Longrightarrow> cons_hd c (ps @ qs) = cons_hd c ps @ qs"
  by (cases ps) (simp_all add: cons_hd_def)

lemma split_js_LINEBRK_append:
  "split_js (u @ LINEBRK @ v) LINEBRK = split_js u LINEBRK @ split_js v LINEBRK"
proof (induction u rule: length_induct)
  case (1 u)
  show ?case
  proof (cases "u = []")
    case True
    then show ?thesis
      by (simp add: split_js.simps [of "LINEBRK @ v"] split_js.simps [of "[]"])
  next
    case False
    show ?thesis
    proof (cases "take 3 u = LINEBRK")
      case True
      then have u: "u = LINEBRK @ drop 3 u" by (metis append_take_drop_id)
      have "length (drop 3 u) < length u" using False by simp
      with 1 have IH: "split_js (drop 3 u @ LINEBRK @ v) LINEBRK
          = split_js (drop 3 u) LINEBRK @ split_js v LINEBRK" by blast
      have "split_js (u @ LINEBRK @ v) LINEBRK = [] # split_js (drop 3 u @ LINEBRK @ v) LINEBRK"
        by (subst u, subst split_js.simps) simp
      moreover have "split_js u LINEBRK = [] # split_js (drop 3 u) LINEBRK"
        using True False by (subst split_js.simps) simp
      ultimately show ?thesis using IH by simp
    next
      case nomatch: False
      obtain c cs where u: "u = c # cs" using False by (cases u) auto
      have "take 3 (u @ LINEBRK @ v) \<noteq> LINEBRK"
      proof (cases cs)
        case Nil
        with u show ?thesis by (simp add: LINEBRK_def)
      next
        case (Cons d ds)
        show ?thesis
        proof (cases ds)
          case Nil
          with Cons u show ?thesis by (simp add: LINEBRK_def)
        next
          case (Cons e es)
          with \<open>cs = d # ds\<close> u nomatch show ?thesis by simp
        qed
      qed
      then have "split_js (u @ LINEBRK @ v) LINEBRK
          = cons_hd c (split_js (cs @ LINEBRK @ v) LINEBRK)"
        using u by (subst split_js.simps) simp
      moreover have "split_js u LINEBRK = cons_hd c (split_js cs LINEBRK)"
        using u nomatch by (subst split_js.simps) simp
      moreover have "split_js (cs @ LINEBRK @ v) LINEBRK
          = split_js cs LINEBRK @ split_js v LINEBRK"
        using 1 u by simp
      ultimately show ?thesis
        by (simp add: cons_hd_append split_js_not_Nil)
    qed
  qed
qed


section \<open>The assembly step\<close>

lemma read_none:
  "\<not> sublist LINEBRK (buffer s @ chunk) \<Longrightarrow> read chunk s = s\<lparr>buffer := buffer s @ chunk\<rparr>"
  by (simp add: read_def Let_def lastIndexOf_sublist)

lemma read_found:
  assumes "buffer s @ chunk = u @ LINEBRK @ v" and "\<not> sublist LINEBRK v"
  shows "read chunk s = s\<lparr>buffer := v, rowsQueue := rowsQueue s @ [u]\<rparr>"
proof -
  have "lastIndexOf (buffer s @ chunk) LINEBRK = int (length u)"
    using assms lastIndexOf_last by simp
  then show ?thesis
    using assms(1) by (simp add: read_def Let_def slice_prefix slice_from_drop nat_add_distrib)
qed

lemma last_terminator:
  assumes "sublist LINEBRK s"
  shows "\<exists>u v. s = u @ LINEBRK @ v \<and> \<not> sublist LINEBRK v"
  using lastIndexOf_decomp [of s] assms lastIndexOf_sublist by blast

text \<open>
  Claim C3. One assembly step appends the chunk to the buffer. If the combined buffer
  holds no terminator, no batch is pushed and the buffer is the old buffer plus the chunk.
  If it holds one, it has a last occurrence; everything before that occurrence is pushed
  as one batch, and the buffer becomes exactly what follows the occurrence.
\<close>

theorem read_feed:
  "(\<not> sublist LINEBRK (buffer s @ chunk) \<longrightarrow>
      read chunk s = s\<lparr>buffer := buffer s @ chunk\<rparr>)
   \<and> (sublist LINEBRK (buffer s @ chunk) \<longrightarrow>
      (\<exists>u v. buffer s @ chunk = u @ LINEBRK @ v \<and> \<not> sublist LINEBRK v))
   \<and> (\<forall>u v. buffer s @ chunk = u @ LINEBRK @ v \<and> \<not> sublist LINEBRK v \<longrightarrow>
      read chunk s = s\<lparr>buffer := v, rowsQueue := rowsQueue s @ [u]\<rparr>)"
  using read_none read_found last_terminator by blast

lemma not_sublist_LINEBRK_simps:
  "\<not> sublist LINEBRK []"
  "c \<noteq> CHR '';'' \<Longrightarrow> sublist LINEBRK (c # cs) \<longleftrightarrow> sublist LINEBRK cs"
  by (auto simp: LINEBRK_def sublist_Cons_right)

theorem read_feed_witness:
  "\<not> sublist LINEBRK ''xy''
   \<and> read ''xy'' (init :: (unit, unit) reader) = init\<lparr>buffer := ''xy''\<rparr>
   \<and> sublist LINEBRK (''a'' @ LINEBRK @ ''b'' @ LINEBRK @ ''c'')
   \<and> \<not> sublist LINEBRK ''c''
   \<and> read (''a'' @ LINEBRK @ ''b'' @ LINEBRK @ ''c'') (init :: (unit, unit) reader)
       = init\<lparr>buffer := ''c'', rowsQueue := [''a'' @ LINEBRK @ ''b'']\<rparr>"
proof -
  have n1: "\<not> sublist LINEBRK ''xy''" and n2: "\<not> sublist LINEBRK ''c''"
    by (simp_all add: not_sublist_LINEBRK_simps)
  have b1: "buffer (init :: (unit, unit) reader) @ ''xy'' = ''xy''"
    and b2: "buffer (init :: (unit, unit) reader) @ (''a'' @ LINEBRK @ ''b'' @ LINEBRK @ ''c'')
      = (''a'' @ LINEBRK @ ''b'') @ LINEBRK @ ''c''"
    by (simp_all add: init_def)
  have s: "sublist LINEBRK (''a'' @ LINEBRK @ ''b'' @ LINEBRK @ ''c'')"
    by (metis sublist_appendI)
  from read_feed [of "init :: (unit, unit) reader" "''xy''"] n1 b1
  have "read ''xy'' (init :: (unit, unit) reader) = init\<lparr>buffer := ''xy''\<rparr>" by simp
  moreover
  have "read (''a'' @ LINEBRK @ ''b'' @ LINEBRK @ ''c'') (init :: (unit, unit) reader)
       = init\<lparr>buffer := ''c'',
               rowsQueue := rowsQueue (init :: (unit, unit) reader) @ [''a'' @ LINEBRK @ ''b'']\<rparr>"
    by (rule read_feed [THEN conjunct2, THEN conjunct2, rule_format, OF conjI [OF b2 n2]])
  then have "read (''a'' @ LINEBRK @ ''b'' @ LINEBRK @ ''c'') (init :: (unit, unit) reader)
       = init\<lparr>buffer := ''c'', rowsQueue := [''a'' @ LINEBRK @ ''b'']\<rparr>"
    by (simp add: init_def)
  ultimately show ?thesis using n1 n2 s by blast
qed

lemma read_buffer_clean: "\<not> sublist LINEBRK (buffer (read chunk s))"
proof (cases "sublist LINEBRK (buffer s @ chunk)")
  case True
  then obtain u v where "buffer s @ chunk = u @ LINEBRK @ v" "\<not> sublist LINEBRK v"
    using last_terminator by blast
  then show ?thesis by (simp add: read_found)
next
  case False
  then show ?thesis by (simp add: read_none)
qed


section \<open>The generating loop\<close>

lemma fold_yield_row:
  "fold (yield_row F) rows s
     = s\<lparr>skip := skip s \<and> rows = [],
         yielded := yielded s @ map F (if skip s then tl rows else rows)\<rparr>"
proof (induction rows arbitrary: s)
  case Nil
  show ?case by simp
next
  case (Cons r rows)
  have "fold (yield_row F) (r # rows) s = fold (yield_row F) rows (yield_row F r s)"
    by simp
  also have "\<dots> = (yield_row F r s)\<lparr>skip := skip (yield_row F r s) \<and> rows = [],
       yielded := yielded (yield_row F r s)
         @ map F (if skip (yield_row F r s) then tl rows else rows)\<rparr>"
    by (rule Cons)
  also have "\<dots> = s\<lparr>skip := skip s \<and> r # rows = [],
       yielded := yielded s @ map F (if skip s then tl (r # rows) else r # rows)\<rparr>"
    by (cases "skip s") (simp_all add: yield_row_def)
  finally show ?case .
qed

lemma pending_simps [simp]:
  "pending [] = []"
  "pending (q # qs) = split_js q LINEBRK @ pending qs"
  "pending (qs @ qs') = pending qs @ pending qs'"
  by (simp_all add: pending_def)

lemma pending_Nil_iff [simp]: "pending queue = [] \<longleftrightarrow> queue = []"
  by (cases queue) (simp_all add: split_js_not_Nil)

lemma for_queue_eq:
  "for_queue F queue s
     = s\<lparr>skip := skip s \<and> queue = [],
         yielded := yielded s @ map F (if skip s then tl (pending queue) else pending queue)\<rparr>"
proof (induction queue arbitrary: s)
  case Nil
  show ?case by (simp add: for_queue_def)
next
  case (Cons q queue)
  have "for_queue F (q # queue) s = for_queue F queue (for_rows F q s)"
    by (simp add: for_queue_def)
  also have "\<dots> = s\<lparr>skip := False,
         yielded := yielded s @ map F (if skip s then tl (pending (q # queue)) else pending (q # queue))\<rparr>"
    by (simp add: Cons for_rows_def fold_yield_row split_js_not_Nil)
  finally show ?case by simp
qed


lemma complete_lines_terminated:
  "complete_lines (P @ LINEBRK) = split_js P LINEBRK"
  using split_js_LINEBRK_append [of P "[]"]
  by (simp add: complete_lines_def split_js.simps [of "[]"])

lemma complete_lines_Nil [simp]: "complete_lines [] = []"
  by (simp add: complete_lines_def split_js.simps [of "[]"])

lemma complete_lines_closed:
  assumes "P = [] \<or> suffix LINEBRK P" and "\<not> sublist LINEBRK b"
  shows "complete_lines (P @ b) = complete_lines P"
proof (cases "P = []")
  case True
  with assms(2) show ?thesis by (simp add: complete_lines_def split_js_none)
next
  case False
  with assms(1) obtain P' where P: "P = P' @ LINEBRK" by (auto simp: suffix_def)
  have "split_js (P' @ LINEBRK @ b) LINEBRK = split_js P' LINEBRK @ [b]"
    using assms(2) by (simp add: split_js_LINEBRK_append split_js_none)
  then show ?thesis
    by (simp add: P complete_lines_terminated) (simp add: complete_lines_def)
qed

lemma complete_lines_snoc:
  assumes "P = [] \<or> suffix LINEBRK P"
  shows "complete_lines (P @ u @ LINEBRK) = complete_lines P @ split_js u LINEBRK"
proof (cases "P = []")
  case True
  then show ?thesis by (simp add: complete_lines_terminated)
next
  case False
  with assms obtain P' where P: "P = P' @ LINEBRK" by (auto simp: suffix_def)
  have "complete_lines ((P' @ LINEBRK @ u) @ LINEBRK)
      = split_js P' LINEBRK @ split_js u LINEBRK"
    by (simp only: complete_lines_terminated split_js_LINEBRK_append)
  then show ?thesis by (simp add: P complete_lines_terminated)
qed

lemma consistent_init: "consistent F init []"
  by (simp add: consistent_def init_def)

lemma consistent_read:
  assumes "consistent F s C"
  shows "consistent F (read chunk s) (C @ chunk)"
proof -
  from assms obtain P where P: "C = P @ buffer s" "P = [] \<or> suffix LINEBRK P"
    and clean: "\<not> sublist LINEBRK (buffer s)"
    by (auto simp: consistent_def)
  have K: "complete_lines C = complete_lines P"
    using P clean by (simp add: complete_lines_closed)
  show ?thesis
  proof (cases "sublist LINEBRK (buffer s @ chunk)")
    case False
    then have r: "read chunk s = s\<lparr>buffer := buffer s @ chunk\<rparr>" by (rule read_none)
    have "complete_lines (C @ chunk) = complete_lines C"
      using P False K complete_lines_closed [of P "buffer s @ chunk"] by simp
    with assms False P show ?thesis
      by (auto simp: consistent_def r)
  next
    case True
    then obtain u v where uv: "buffer s @ chunk = u @ LINEBRK @ v" "\<not> sublist LINEBRK v"
      using last_terminator by blast
    then have r: "read chunk s = s\<lparr>buffer := v, rowsQueue := rowsQueue s @ [u]\<rparr>"
      by (rule read_found)
    let ?P = "P @ u @ LINEBRK"
    have C': "C @ chunk = ?P @ v" using P(1) uv(1) by simp
    have closed: "?P = [] \<or> suffix LINEBRK ?P"
      by (metis append_assoc suffixI)
    have "complete_lines (C @ chunk) = complete_lines ?P"
      unfolding C' using closed uv(2) by (rule complete_lines_closed)
    also have "\<dots> = complete_lines C @ split_js u LINEBRK"
      using P(2) K by (simp add: complete_lines_snoc)
    finally have K': "complete_lines (C @ chunk) = complete_lines C @ split_js u LINEBRK" .
    have "\<exists>P'. C @ chunk = P' @ v \<and> (P' = [] \<or> suffix LINEBRK P')"
      using C' closed by blast
    with assms uv(2) K' show ?thesis
      by (auto simp: consistent_def r)
  qed
qed

lemma await_queue_error:
  "streamError s = Some e \<Longrightarrow> await_queue F s = s\<lparr>control := Thrown (StreamError e)\<rparr>"
  by (simp add: await_queue_def nextRowsQueue_def catch_loop_def)

lemma await_queue_dequeue:
  "streamError s = None \<Longrightarrow> rowsQueue s \<noteq> [] \<Longrightarrow>
   await_queue F s = s\<lparr>rowsQueue := [], breakLoop := (buffer s = [] \<and> streamEnd s),
         skip := False,
         yielded := yielded s @ map F (if skip s then tl (pending (rowsQueue s))
                                       else pending (rowsQueue s)),
         control := LoopHead\<rparr>"
  by (simp add: await_queue_def nextRowsQueue_def for_queue_eq)

lemma await_queue_wait:
  "streamError s = None \<Longrightarrow> rowsQueue s = [] \<Longrightarrow> \<not> streamEnd s \<Longrightarrow>
   await_queue F s = s\<lparr>control := Awaiting\<rparr>"
  by (simp add: await_queue_def nextRowsQueue_def)

lemma await_queue_done:
  "streamError s = None \<Longrightarrow> rowsQueue s = [] \<Longrightarrow> streamEnd s \<Longrightarrow>
   await_queue F s = s\<lparr>control := Returned\<rparr>"
  by (simp add: await_queue_def nextRowsQueue_def catch_loop_def after_loop_def)

lemma after_loop_error:
  "streamError s = Some e \<Longrightarrow> after_loop s = s\<lparr>control := Thrown (StreamError e)\<rparr>"
  by (simp add: after_loop_def)

lemma after_loop_return:
  "streamError s = None \<Longrightarrow> after_loop s = s\<lparr>control := Returned\<rparr>"
  by (simp add: after_loop_def)

lemma await_queue_effect:
  "(\<exists>c. await_queue F s = s\<lparr>control := c\<rparr>)
   \<or> (rowsQueue s \<noteq> [] \<and> streamError s = None
      \<and> await_queue F s = s\<lparr>rowsQueue := [], breakLoop := (buffer s = [] \<and> streamEnd s),
         skip := False,
         yielded := yielded s @ map F (if skip s then tl (pending (rowsQueue s))
                                       else pending (rowsQueue s)),
         control := LoopHead\<rparr>)"
proof (cases "streamError s")
  case (Some e)
  then show ?thesis using await_queue_error [of s e F] by blast
next
  case None
  show ?thesis
  proof (cases "rowsQueue s = []")
    case False
    with None show ?thesis using await_queue_dequeue [of s F] by blast
  next
    case True
    with None show ?thesis
      using await_queue_wait [of s F] await_queue_done [of s F]
      by (cases "streamEnd s") blast+
  qed
qed

lemma after_loop_effect: "\<exists>c. after_loop s = s\<lparr>control := c\<rparr>"
  using after_loop_error [of s] after_loop_return [of s]
  by (cases "streamError s") blast+

lemma pull_effect:
  "(\<exists>c. pull F s = s\<lparr>control := c\<rparr>)
   \<or> (rowsQueue s \<noteq> [] \<and> streamError s = None
      \<and> (control s = LoopHead \<or> control s = Awaiting)
      \<and> pull F s = s\<lparr>rowsQueue := [], breakLoop := (buffer s = [] \<and> streamEnd s),
         skip := False,
         yielded := yielded s @ map F (if skip s then tl (pending (rowsQueue s))
                                       else pending (rowsQueue s)),
         control := LoopHead\<rparr>)"
proof (cases "control s")
  case LoopHead
  then show ?thesis
    using await_queue_effect [of F s] after_loop_effect [of s]
    by (auto simp: pull_def)
next
  case Awaiting
  then show ?thesis
    using await_queue_effect [of F s] by (auto simp: pull_def)
next
  case Returned
  then have "pull F s = s\<lparr>control := Returned\<rparr>" by (simp add: pull_def)
  then show ?thesis by blast
next
  case (Thrown x)
  then have "pull F s = s\<lparr>control := Thrown x\<rparr>" by (simp add: pull_def)
  then show ?thesis by blast
qed

lemma consistent_pull:
  assumes "consistent F s C"
  shows "consistent F (pull F s) C"
proof -
  from pull_effect [of F s] consider
    (idle) c where "pull F s = s\<lparr>control := c\<rparr>"
  | (dequeue) "rowsQueue s \<noteq> []"
      "pull F s = s\<lparr>rowsQueue := [], breakLoop := (buffer s = [] \<and> streamEnd s),
         skip := False,
         yielded := yielded s @ map F (if skip s then tl (pending (rowsQueue s))
                                       else pending (rowsQueue s)),
         control := LoopHead\<rparr>"
    by blast
  then show ?thesis
  proof cases
    case idle
    with assms show ?thesis by (simp add: consistent_def)
  next
    case dequeue
    show ?thesis
    proof (cases "skip s")
      case True
      with assms dequeue(1) show ?thesis
        unfolding dequeue(2) by (simp add: consistent_def)
    next
      case False
      with assms dequeue(1) show ?thesis
        unfolding dequeue(2) by (simp add: consistent_def)
    qed
  qed
qed


lemma exec_simps [simp]:
  "exec F [] s = s"
  "exec F (ev # sched) s = exec F sched (step F ev s)"
  "exec F (sched @ sched') s = exec F sched' (exec F sched s)"
  by (simp_all add: exec_def)

lemma step_simps [simp]:
  "step F (Data chunk) s = read chunk s"
  "step F End s = s\<lparr>streamEnd := True\<rparr>"
  "step F (Error e) s = s\<lparr>streamError := Some e\<rparr>"
  "step F Pull s = pull F s"
  by (simp_all add: step_def)

lemma fed_simps [simp]:
  "fed [] = []"
  "fed (Data chunk # sched) = chunk @ fed sched"
  "fed (End # sched) = fed sched"
  "fed (Error e # sched) = fed sched"
  "fed (Pull # sched) = fed sched"
  "fed (sched @ sched') = fed sched @ fed sched'"
  by (simp_all add: fed_def)

lemma fed_Data [simp]: "fed (map Data chunks) = concat chunks"
  by (induction chunks) simp_all

lemma fed_source_events [simp]: "fed (source_events sched) = fed sched"
proof (induction sched)
  case Nil
  show ?case by (simp add: source_events_def)
next
  case (Cons ev sched)
  then show ?case by (cases ev) (simp_all add: source_events_def)
qed

lemma consistent_step:
  "consistent F s C \<Longrightarrow> consistent F (step F ev s) (C @ fed [ev])"
proof (cases ev)
  case (Data chunk)
  assume "consistent F s C"
  then show ?thesis using Data by (simp add: consistent_read)
next
  case End
  assume "consistent F s C"
  then show ?thesis using End by (simp add: consistent_def)
next
  case (Error e)
  assume "consistent F s C"
  then show ?thesis using Error by (simp add: consistent_def)
next
  case Pull
  assume "consistent F s C"
  then show ?thesis using Pull by (simp add: consistent_pull)
qed

lemma consistent_exec:
  "consistent F s C \<Longrightarrow> consistent F (exec F sched s) (C @ fed sched)"
proof (induction sched arbitrary: s C)
  case Nil
  then show ?case by simp
next
  case (Cons ev sched)
  from Cons.prems have "consistent F (step F ev s) (C @ fed [ev])"
    by (rule consistent_step)
  then have "consistent F (exec F sched (step F ev s)) ((C @ fed [ev]) @ fed sched)"
    by (rule Cons.IH)
  moreover have "fed (ev # sched) = fed [ev] @ fed sched"
    using fed_simps(6) [of "[ev]" sched] by simp
  ultimately show ?case by simp
qed

lemma consistent_reached: "consistent F (exec F sched init) (fed sched)"
  using consistent_exec [OF consistent_init, of F sched] by simp

lemma live_init: "live init"
  by (simp add: live_def init_def)

lemma read_flags [simp]:
  "streamError (read chunk s) = streamError s"
  "streamEnd (read chunk s) = streamEnd s"
  "breakLoop (read chunk s) = breakLoop s"
  "control (read chunk s) = control s"
  "skip (read chunk s) = skip s"
  "yielded (read chunk s) = yielded s"
  by (simp_all add: read_def Let_def)

lemma live_read: "live s \<Longrightarrow> live (read chunk s)"
  by (simp add: live_def)

lemma live_pull:
  assumes "live s"
  shows "live (pull F s) \<and> rowsQueue (pull F s) = []"
proof (cases "rowsQueue s = []")
  case True
  with assms have "pull F s = s\<lparr>control := Awaiting\<rparr>"
    by (auto simp: live_def pull_def await_queue_wait)
  with assms True show ?thesis by (simp add: live_def)
next
  case False
  with assms have "pull F s = s\<lparr>rowsQueue := [], breakLoop := (buffer s = [] \<and> streamEnd s),
         skip := False,
         yielded := yielded s @ map F (if skip s then tl (pending (rowsQueue s))
                                       else pending (rowsQueue s)),
         control := LoopHead\<rparr>"
    by (auto simp: live_def pull_def await_queue_dequeue)
  with assms show ?thesis by (simp add: live_def)
qed

lemma live_exec:
  assumes "live s" and "\<forall>ev\<in>set sched. ev = Pull \<or> (\<exists>chunk. ev = Data chunk)"
  shows "live (exec F sched s)"
  using assms
proof (induction sched arbitrary: s)
  case Nil
  then show ?case by simp
next
  case (Cons ev sched)
  from Cons.prems have "live (step F ev s)"
    by (auto simp: live_read live_pull)
  with Cons show ?case by simp
qed

lemma pull_finished:
  "control s = Returned \<or> control s = Thrown x \<Longrightarrow> pull F s = s"
  by (auto simp: pull_def)

lemma pull_funpow_finished:
  "control s = Returned \<or> control s = Thrown x \<Longrightarrow> (pull F ^^ n) s = s"
  by (induction n) (simp_all add: pull_finished)

lemma ended_pull_twice:
  assumes "ended s"
  shows "control (pull F (pull F s)) = Returned \<and> rowsQueue (pull F (pull F s)) = []
         \<and> skip (pull F (pull F s)) = (skip s \<and> rowsQueue s = [])
         \<and> yielded (pull F (pull F s))
            = yielded s @ map F (if skip s then tl (pending (rowsQueue s))
                                 else pending (rowsQueue s))"
proof -
  from assms have err: "streamError s = None" and fin: "streamEnd s"
    by (simp_all add: ended_def)
  show ?thesis
  proof (cases "control s = Returned")
    case True
    with assms have "rowsQueue s = []" by (simp add: ended_def)
    with True show ?thesis by (simp add: pull_finished)
  next
    case running: False
    show ?thesis
    proof (cases "rowsQueue s = []")
      case True
      have "pull F s = s\<lparr>control := Returned\<rparr>"
        using assms running True err fin
        by (auto simp: ended_def pull_def await_queue_done after_loop_return)
      with True show ?thesis by (simp add: pull_finished)
    next
      case False
      with assms running have nb: "\<not> breakLoop s" by (auto simp: ended_def)
      let ?t = "s\<lparr>rowsQueue := [], breakLoop := (buffer s = [] \<and> streamEnd s),
         skip := False,
         yielded := yielded s @ map F (if skip s then tl (pending (rowsQueue s))
                                       else pending (rowsQueue s)),
         control := LoopHead\<rparr>"
      have p1: "pull F s = ?t"
        using assms running False err nb
        by (auto simp: ended_def pull_def await_queue_dequeue)
      have "pull F ?t = ?t\<lparr>control := Returned\<rparr>"
        using err fin by (simp add: pull_def await_queue_done after_loop_return)
      with p1 False show ?thesis by simp
    qed
  qed
qed

lemma funpow_pull_ge2:
  assumes "2 \<le> n" and "control (pull F (pull F s)) = Returned"
  shows "(pull F ^^ n) s = pull F (pull F s)"
proof -
  from assms(1) obtain k where n: "n = k + 2" by (metis add.commute le_Suc_ex)
  have "(pull F ^^ n) s = (pull F ^^ k) ((pull F ^^ 2) s)"
    unfolding n by (simp only: funpow_add o_apply)
  also have "(pull F ^^ 2) s = pull F (pull F s)" by (simp add: numeral_2_eq_2)
  finally show ?thesis using assms(2) by (simp add: pull_funpow_finished)
qed

lemma exec_pulls:
  "source_events sched = [] \<Longrightarrow> exec F sched s = (pull F ^^ length sched) s"
proof (induction sched arbitrary: s)
  case Nil
  show ?case by simp
next
  case (Cons ev sched)
  then have "ev = Pull" and "source_events sched = []"
    by (auto simp: source_events_def split: if_splits)
  with Cons.IH show ?case by (simp add: funpow_swap1)
qed

lemma source_events_snoc:
  assumes "source_events sched = evs @ [ev]"
  shows "\<exists>pre post. sched = pre @ ev # post \<and> source_events pre = evs
                    \<and> source_events post = []"
proof -
  from assms have "filter (\<lambda>ev. ev \<noteq> Pull) (rev sched) = ev # rev evs"
    by (simp add: source_events_def rev_filter [symmetric])
  then obtain us vs where r: "rev sched = us @ ev # vs" "\<forall>u\<in>set us. \<not> u \<noteq> Pull"
      "rev evs = filter (\<lambda>ev. ev \<noteq> Pull) vs"
    unfolding filter_eq_Cons_iff by blast
  from r(1) have "sched = rev vs @ ev # rev us"
    by (metis rev_append rev.simps(2) rev_rev_ident append_assoc append_Cons append_Nil)
  moreover from r(3) have "source_events (rev vs) = evs"
    by (metis source_events_def rev_filter rev_rev_ident)
  moreover from r(2) have "source_events (rev us) = []"
    by (simp add: source_events_def filter_empty_conv)
  ultimately show ?thesis by blast
qed

lemma source_events_Data:
  assumes "source_events sched = map Data chunks"
  shows "\<forall>ev\<in>set sched. ev = Pull \<or> (\<exists>chunk. ev = Data chunk)"
proof
  fix ev assume "ev \<in> set sched"
  show "ev = Pull \<or> (\<exists>chunk. ev = Data chunk)"
  proof (cases "ev = Pull")
    case False
    with \<open>ev \<in> set sched\<close> have "ev \<in> set (source_events sched)"
      by (simp add: source_events_def)
    with assms show ?thesis by auto
  qed simp
qed


lemma source_events_replicate_Pull [simp]: "source_events (replicate n Pull) = []"
  by (simp add: source_events_def)

lemma fed_replicate_Pull [simp]: "fed (replicate n Pull) = []"
  by (induction n) simp_all

lemma funpow_pull_exec:
  "(pull F ^^ n) (exec F sched s) = exec F (sched @ replicate n Pull) s"
  by (simp add: exec_pulls)

lemma consistent_prefix:
  assumes "consistent F s C"
  shows "prefix (yielded s) (reference_rows F C)"
  using assms by (cases "skip s") (simp_all add: consistent_def reference_rows_def)

lemma consistent_drained:
  assumes "consistent F s C" and "rowsQueue s = []"
  shows "yielded s = reference_rows F C"
  using assms by (cases "skip s") (simp_all add: consistent_def reference_rows_def)

lemma yielded_prefix:
  "prefix (fst (cidTableStream F sched n)) (reference_rows F (fed sched))"
proof -
  have "consistent F (exec F (sched @ replicate n Pull) init)
          (fed (sched @ replicate n Pull))"
    by (rule consistent_reached)
  then have "consistent F ((pull F ^^ n) (exec F sched init)) (fed sched)"
    by (simp add: funpow_pull_exec)
  then show ?thesis
    by (simp add: cidTableStream_def Let_def consistent_prefix)
qed

lemma stream_complete:
  assumes "source_events sched = map Data chunks @ [End]" and "2 \<le> n"
  shows "cidTableStream F sched n = (reference_rows F (concat chunks), Returned)"
proof -
  from source_events_snoc [OF assms(1)] obtain pre post
    where sched: "sched = pre @ End # post"
      and pre: "source_events pre = map Data chunks"
      and post: "source_events post = []"
    by blast
  let ?s1 = "exec F pre init"
  let ?s2 = "?s1\<lparr>streamEnd := True\<rparr>"
  have "fed pre = concat chunks"
    using fed_source_events [of pre] pre by simp
  then have c1: "consistent F ?s1 (concat chunks)"
    using consistent_reached [of F pre] by simp
  have l1: "live ?s1"
    using live_init source_events_Data [OF pre] by (rule live_exec)
  have c2: "consistent F ?s2 (concat chunks)"
    using c1 by (simp add: consistent_def)
  have e2: "ended ?s2"
    using l1 by (auto simp: live_def ended_def)
  let ?t = "pull F (pull F ?s2)"
  note fin = ended_pull_twice [OF e2, of F]
  have "(pull F ^^ n) (exec F sched init) = (pull F ^^ (n + length post)) ?s2"
    by (simp add: sched exec_pulls [OF post] funpow_add)
  also have "\<dots> = ?t"
    using assms(2) fin by (intro funpow_pull_ge2) simp_all
  finally have run: "(pull F ^^ n) (exec F sched init) = ?t" .
  have "consistent F ?t (concat chunks)"
    using c2 by (intro consistent_pull)
  with fin have "yielded ?t = reference_rows F (concat chunks)"
    by (intro consistent_drained) simp_all
  with fin run show ?thesis
    by (simp add: cidTableStream_def Let_def)
qed


lemma funpow_pull_ge1:
  assumes "1 \<le> n" and "control (pull F s) = Returned \<or> control (pull F s) = Thrown x"
  shows "(pull F ^^ n) s = pull F s"
proof -
  from assms(1) obtain k where n: "n = Suc k" by (cases n) simp_all
  have "(pull F ^^ n) s = (pull F ^^ k) (pull F s)"
    unfolding n by (simp only: funpow_Suc_right o_apply)
  then show ?thesis using assms(2) by (simp add: pull_funpow_finished)
qed



lemma split_js_join:
  assumes "\<forall>l\<in>set ls. \<not> sublist LINEBRK l" and "\<not> sublist LINEBRK rest"
  shows "split_js (concat (map (\<lambda>l. l @ LINEBRK) ls) @ rest) LINEBRK = ls @ [rest]"
  using assms(1)
proof (induction ls)
  case Nil
  with assms(2) show ?case by (simp add: split_js_none)
next
  case (Cons l ls)
  have "split_js (l @ LINEBRK @ concat (map (\<lambda>l. l @ LINEBRK) ls) @ rest) LINEBRK
      = split_js l LINEBRK @ split_js (concat (map (\<lambda>l. l @ LINEBRK) ls) @ rest) LINEBRK"
    by (rule split_js_LINEBRK_append)
  with Cons show ?case by (simp add: split_js_none)
qed

lemma complete_lines_join:
  assumes "\<forall>l\<in>set ls. \<not> sublist LINEBRK l" and "\<not> sublist LINEBRK rest"
  shows "complete_lines (concat (map (\<lambda>l. l @ LINEBRK) ls) @ rest) = ls"
  using split_js_join [OF assms] by (simp add: complete_lines_def)

lemma control_pull_sentinel:
  assumes "control s \<noteq> Thrown SKIPERR"
  shows "control (pull F s) \<noteq> Thrown SKIPERR"
proof -
  have a: "control (after_loop t) \<noteq> Thrown SKIPERR" for t :: "('a, 'b) reader"
    by (simp add: after_loop_def split: option.splits)
  have c: "control (catch_loop x t) \<noteq> Thrown SKIPERR" for x and t :: "('a, 'b) reader"
    using a [of t] by (simp add: catch_loop_def)
  have q: "control (await_queue F t) \<noteq> Thrown SKIPERR" for t :: "('a, 'b) reader"
    using c by (simp add: await_queue_def split: prod.splits settled.splits)
  from assms a q show ?thesis
    by (cases "control s") (simp_all add: pull_def)
qed

lemma control_step_sentinel:
  "control s \<noteq> Thrown SKIPERR \<Longrightarrow> control (step F ev s) \<noteq> Thrown SKIPERR"
  by (cases ev) (simp_all add: control_pull_sentinel)

lemma control_exec_sentinel:
  "control s \<noteq> Thrown SKIPERR \<Longrightarrow> control (exec F sched s) \<noteq> Thrown SKIPERR"
  by (induction sched arbitrary: s) (simp_all add: control_step_sentinel)

lemma stream_empty:
  assumes "source_events sched = [End]" and "1 \<le> n"
  shows "cidTableStream F sched n = ([], Returned)"
proof -
  from source_events_snoc [of sched "[]" End] assms(1) obtain pre post
    where sched: "sched = pre @ End # post"
      and pre: "source_events pre = []"
      and post: "source_events post = []"
    by auto
  let ?s1 = "exec F pre init"
  let ?s2 = "?s1\<lparr>streamEnd := True\<rparr>"
  have "fed pre = []" using fed_source_events [of pre] pre by simp
  then have c1: "consistent F ?s1 []"
    using consistent_reached [of F pre] by simp
  then have "skip ?s1" by (auto simp: consistent_def split: if_splits)
  with c1 have "pending (rowsQueue ?s1) = complete_lines []" and y: "yielded ?s1 = []"
    by (simp_all add: consistent_def)
  then have q: "rowsQueue ?s1 = []" by simp
  have l1: "live ?s1"
    using live_init source_events_Data [of pre "[]"] pre by (intro live_exec) simp_all
  have p: "pull F ?s2 = ?s2\<lparr>control := Returned\<rparr>"
    using l1 q by (auto simp: live_def pull_def await_queue_done)
  have "(pull F ^^ n) (exec F sched init) = (pull F ^^ (n + length post)) ?s2"
    by (simp add: sched exec_pulls [OF post] funpow_add)
  also have "\<dots> = pull F ?s2"
    using assms(2) p by (intro funpow_pull_ge1 [where x = SKIPERR]) simp_all
  finally show ?thesis using p y by (simp add: cidTableStream_def Let_def)
qed

section \<open>Properties of the reader\<close>

text \<open>
  Claim C1. Whatever the chunks the content arrives in, also when a chunk boundary falls
  inside a terminator, and whenever the generator takes its turns between them, the rows
  yielded are those of the run that receives the whole content as one chunk, and they are
  the rows of the reference split of the whole content on the terminator.
\<close>

theorem chunk_boundary_independence:
  assumes "source_events sched = map Data chunks @ [End]" and "2 \<le> n"
  shows "cidTableStream F sched n = cidTableStream F [Data (concat chunks), End] 2
         \<and> cidTableStream F sched n = (reference_rows F (concat chunks), Returned)"
proof -
  have "source_events [Data (concat chunks), End] = map Data [concat chunks] @ [End]"
    by (simp add: source_events_def)
  then have "cidTableStream F [Data (concat chunks), End] 2
      = (reference_rows F (concat [concat chunks]), Returned)"
    by (rule stream_complete) simp
  then have whole: "cidTableStream F [Data (concat chunks), End] 2
      = (reference_rows F (concat chunks), Returned)"
    by simp
  have chunked: "cidTableStream F sched n = (reference_rows F (concat chunks), Returned)"
    using assms by (rule stream_complete)
  show ?thesis unfolding whole chunked by simp
qed

theorem chunk_boundary_independence_witness:
  "source_events ([Pull, Data ''h;'', Pull, Data (CHR 0x0D # CHR 0x0A # ''a;b;'' @ [CHR 0x0D]),
       Data (CHR 0x0A # ''c''), End] :: unit event list)
     = map Data [''h;'', CHR 0x0D # CHR 0x0A # ''a;b;'' @ [CHR 0x0D], CHR 0x0A # ''c''] @ [End]
   \<and> (2 :: nat) \<le> 2
   \<and> cidTableStream CidRecord ([Pull, Data ''h;'', Pull,
         Data (CHR 0x0D # CHR 0x0A # ''a;b;'' @ [CHR 0x0D]), Data (CHR 0x0A # ''c''), End]
         :: unit event list) 2
       = cidTableStream CidRecord
           [Data (concat [''h;'', CHR 0x0D # CHR 0x0A # ''a;b;'' @ [CHR 0x0D], CHR 0x0A # ''c'']),
            End] 2
   \<and> cidTableStream CidRecord ([Pull, Data ''h;'', Pull,
         Data (CHR 0x0D # CHR 0x0A # ''a;b;'' @ [CHR 0x0D]), Data (CHR 0x0A # ''c''), End]
         :: unit event list) 2
       = ([\<lparr>columns = [''a'', ''b'']\<rparr>], Returned)"
proof -
  let ?sched = "[Pull, Data ''h;'', Pull, Data (CHR 0x0D # CHR 0x0A # ''a;b;'' @ [CHR 0x0D]),
       Data (CHR 0x0A # ''c''), End] :: unit event list"
  let ?chunks = "[''h;'', CHR 0x0D # CHR 0x0A # ''a;b;'' @ [CHR 0x0D], CHR 0x0A # ''c'']"
  have h: "source_events ?sched = map Data ?chunks @ [End]"
    by (simp add: source_events_def)
  have n: "(2 :: nat) \<le> 2" by simp
  have r: "reference_rows CidRecord (concat ?chunks) = [\<lparr>columns = [''a'', ''b'']\<rparr>]"
    by code_simp
  note t = chunk_boundary_independence [OF h n, of CidRecord]
  from t have t1: "cidTableStream CidRecord ?sched 2
      = cidTableStream CidRecord [Data (concat ?chunks), End] 2"
    by (rule conjunct1)
  from t have "cidTableStream CidRecord ?sched 2
      = (reference_rows CidRecord (concat ?chunks), Returned)"
    by (rule conjunct2)
  then have t2: "cidTableStream CidRecord ?sched 2 = ([\<lparr>columns = [''a'', ''b'']\<rparr>], Returned)"
    by (simp only: r)
  show ?thesis
    by (intro conjI) (rule h, rule n, rule t1, rule t2)
qed

text \<open>
  Claim C2. The first line of the file is never yielded. In every schedule, also one cut
  short by an error, the rows yielded so far are a prefix of the complete lines of the
  content fed so far without the first of them. When that content is a header line and
  further lines, each terminated, and possibly an unterminated rest, the rows are a prefix
  of the further lines, and all of them once the stream has ended: every line after
  the header is handed to the factory, in order.
\<close>

theorem header_never_yielded:
  "prefix (fst (cidTableStream F sched n)) (map F (tl (complete_lines (fed sched))))
   \<and> ((\<forall>l\<in>set (header # lines). \<not> sublist LINEBRK l) \<and> \<not> sublist LINEBRK rest
        \<and> fed sched = concat (map (\<lambda>l. l @ LINEBRK) (header # lines)) @ rest
      \<longrightarrow> complete_lines (fed sched) = header # lines
          \<and> prefix (fst (cidTableStream F sched n)) (map F lines)
          \<and> (source_events sched = map Data chunks @ [End] \<and> 2 \<le> n
             \<longrightarrow> cidTableStream F sched n = (map F lines, Returned)))"
proof (intro conjI impI)
  show general: "prefix (fst (cidTableStream F sched n)) (map F (tl (complete_lines (fed sched))))"
    using yielded_prefix [of F sched n] by (simp add: reference_rows_def)
  assume a: "(\<forall>l\<in>set (header # lines). \<not> sublist LINEBRK l) \<and> \<not> sublist LINEBRK rest
        \<and> fed sched = concat (map (\<lambda>l. l @ LINEBRK) (header # lines)) @ rest"
  then show K: "complete_lines (fed sched) = header # lines"
    using complete_lines_join [of "header # lines" rest] by simp
  from general K show "prefix (fst (cidTableStream F sched n)) (map F lines)" by simp
  assume b: "source_events sched = map Data chunks @ [End] \<and> 2 \<le> n"
  then have "fed sched = concat chunks"
    using fed_source_events [of sched] by simp
  with b K stream_complete [of sched chunks n F]
  show "cidTableStream F sched n = (map F lines, Returned)"
    by (simp add: reference_rows_def)
qed


theorem header_never_yielded_witness:
  "\<not> sublist LINEBRK ''h1;h2'' \<and> \<not> sublist LINEBRK ''a;b''
   \<and> \<not> sublist LINEBRK ''c;d''
   \<and> \<not> sublist LINEBRK ''e;f''
   \<and> fed ([Pull, Data (''h1;'' @ ''h2'' @ LINEBRK @ ''a''), Pull,
            Data ('';b'' @ LINEBRK @ ''c;d'' @ LINEBRK @ ''e;f''), End] :: unit event list)
       = concat (map (\<lambda>l. l @ LINEBRK) [''h1;h2'', ''a;b'', ''c;d'']) @ ''e;f''
   \<and> source_events ([Pull, Data (''h1;'' @ ''h2'' @ LINEBRK @ ''a''), Pull,
            Data ('';b'' @ LINEBRK @ ''c;d'' @ LINEBRK @ ''e;f''), End] :: unit event list)
       = map Data [''h1;'' @ ''h2'' @ LINEBRK @ ''a'',
                   '';b'' @ LINEBRK @ ''c;d'' @ LINEBRK @ ''e;f''] @ [End]
   \<and> (2 :: nat) \<le> 2
   \<and> cidTableStream CidRecord ([Pull, Data (''h1;'' @ ''h2'' @ LINEBRK @ ''a''), Pull,
            Data ('';b'' @ LINEBRK @ ''c;d'' @ LINEBRK @ ''e;f''), End] :: unit event list) 2
       = (map CidRecord [''a;b'', ''c;d''], Returned)"
proof -
  let ?sched = "[Pull, Data (''h1;'' @ ''h2'' @ LINEBRK @ ''a''), Pull,
            Data ('';b'' @ LINEBRK @ ''c;d'' @ LINEBRK @ ''e;f''), End] :: unit event list"
  let ?chunks = "[''h1;'' @ ''h2'' @ LINEBRK @ ''a'',
                   '';b'' @ LINEBRK @ ''c;d'' @ LINEBRK @ ''e;f'']"
  have q1: "\<not> sublist LINEBRK ''h1;h2''" and q2: "\<not> sublist LINEBRK ''a;b''"
    and q3: "\<not> sublist LINEBRK ''c;d''" and p2: "\<not> sublist LINEBRK ''e;f''"
    by code_simp+
  from q1 q2 q3 have p1: "\<forall>l\<in>set [''h1;h2'', ''a;b'', ''c;d'']. \<not> sublist LINEBRK l"
    by simp
  have p3: "fed ?sched = concat (map (\<lambda>l. l @ LINEBRK) [''h1;h2'', ''a;b'', ''c;d'']) @ ''e;f''"
    by simp
  have h: "source_events ?sched = map Data ?chunks @ [End]"
    by (simp add: source_events_def)
  have n: "(2 :: nat) \<le> 2" by simp
  note t = header_never_yielded [of CidRecord ?sched 2 "''h1;h2''" "[''a;b'', ''c;d'']" "''e;f''"
      ?chunks, THEN conjunct2, THEN mp, OF conjI [OF p1 conjI [OF p2 p3]],
      THEN conjunct2, THEN conjunct2, THEN mp, OF conjI [OF h n]]
  show ?thesis
    by (intro conjI) (rule q1, rule q2, rule q3, rule p2, rule p3, rule h, rule n, rule t)
qed







text \<open>
  Claim C5. When the content is a sequence of terminated lines followed by a last line
  that is not empty and has no terminator, the generator yields the lines after the
  header and returns; the unterminated last line stays in the buffer and is never a row.
\<close>

theorem unterminated_last_line_dropped:
  assumes "source_events sched = map Data chunks @ [End]" and "2 \<le> n"
    and "concat chunks = concat (map (\<lambda>l. l @ LINEBRK) lines) @ last_line"
    and "\<forall>l\<in>set lines. \<not> sublist LINEBRK l"
    and "\<not> sublist LINEBRK last_line" and "last_line \<noteq> []"
  shows "cidTableStream F sched n = (map F (tl lines), Returned)
         \<and> buffer ((pull F ^^ n) (exec F sched init)) = last_line"
proof -
  have K: "complete_lines (concat chunks) = lines"
    unfolding assms(3) using assms(4,5) by (rule complete_lines_join)
  have res: "cidTableStream F sched n = (map F (tl lines), Returned)"
    using stream_complete [OF assms(1,2), of F] K by (simp add: reference_rows_def)
  let ?t = "exec F (sched @ replicate n Pull) init"
  have "consistent F ?t (fed (sched @ replicate n Pull))"
    by (rule consistent_reached)
  moreover have "fed (sched @ replicate n Pull) = concat chunks"
    using fed_source_events [of sched] assms(1) by simp
  ultimately obtain P where P: "concat chunks = P @ buffer ?t" "P = [] \<or> suffix LINEBRK P"
      and clean: "\<not> sublist LINEBRK (buffer ?t)"
    by (auto simp: consistent_def)
  have "split_js (concat chunks) LINEBRK = lines @ [last_line]"
    unfolding assms(3) using assms(4,5) by (rule split_js_join)
  moreover have "last (split_js (P @ buffer ?t) LINEBRK) = buffer ?t"
  proof (cases "P = []")
    case True
    with clean show ?thesis by (simp add: split_js_none)
  next
    case False
    with P(2) obtain P' where "P = P' @ LINEBRK" by (auto simp: suffix_def)
    with clean show ?thesis
      by (simp add: split_js_LINEBRK_append split_js_none)
  qed
  ultimately have "buffer ?t = last_line" using P(1) by simp
  with res show ?thesis by (simp add: funpow_pull_exec)
qed

theorem unterminated_last_line_dropped_witness:
  "source_events ([Pull, Data (''h'' @ LINEBRK @ ''r1;x'' @ LINEBRK @ ''r2''), Pull,
       Data ('';y''), End] :: unit event list)
     = map Data [''h'' @ LINEBRK @ ''r1;x'' @ LINEBRK @ ''r2'', '';y''] @ [End]
   \<and> (2 :: nat) \<le> 2
   \<and> concat [''h'' @ LINEBRK @ ''r1;x'' @ LINEBRK @ ''r2'', '';y'']
     = concat (map (\<lambda>l. l @ LINEBRK) [''h'', ''r1;x'']) @ ''r2;y''
   \<and> \<not> sublist LINEBRK ''h'' \<and> \<not> sublist LINEBRK ''r1;x''
   \<and> \<not> sublist LINEBRK ''r2;y'' \<and> ''r2;y'' \<noteq> []
   \<and> cidTableStream CidRecord ([Pull, Data (''h'' @ LINEBRK @ ''r1;x'' @ LINEBRK @ ''r2''), Pull,
       Data ('';y''), End] :: unit event list) 2
     = ([\<lparr>columns = [''r1'', ''x'']\<rparr>], Returned)"
proof -
  let ?sched = "[Pull, Data (''h'' @ LINEBRK @ ''r1;x'' @ LINEBRK @ ''r2''), Pull,
       Data ('';y''), End] :: unit event list"
  let ?chunks = "[''h'' @ LINEBRK @ ''r1;x'' @ LINEBRK @ ''r2'', '';y'']"
  have h: "source_events ?sched = map Data ?chunks @ [End]"
    by (simp add: source_events_def)
  have n: "(2 :: nat) \<le> 2" by simp
  have c: "concat ?chunks = concat (map (\<lambda>l. l @ LINEBRK) [''h'', ''r1;x'']) @ ''r2;y''"
    by simp
  have q1: "\<not> sublist LINEBRK ''h''" and q2: "\<not> sublist LINEBRK ''r1;x''"
    and p2: "\<not> sublist LINEBRK ''r2;y''"
    by code_simp+
  from q1 q2 have p1: "\<forall>l\<in>set [''h'', ''r1;x'']. \<not> sublist LINEBRK l" by simp
  have p3: "''r2;y'' \<noteq> []" by simp
  have "cidTableStream CidRecord ?sched 2 = (map CidRecord (tl [''h'', ''r1;x'']), Returned)"
    by (rule unterminated_last_line_dropped [OF h n c p1 p2 p3, THEN conjunct1])
  moreover have "map CidRecord (tl [''h'', ''r1;x'']) = [\<lparr>columns = [''r1'', ''x'']\<rparr>]"
    by code_simp
  ultimately have t: "cidTableStream CidRecord ?sched 2 = ([\<lparr>columns = [''r1'', ''x'']\<rparr>], Returned)"
    by (simp only:)
  show ?thesis
    by (intro conjI) (rule h, rule n, rule c, rule q1, rule q2, rule p2, rule p3, rule t)
qed

lemma nextRowsQueue_SKIPERR:
  assumes "fst (nextRowsQueue s) = Reject SKIPERR"
  shows "streamError s = None \<and> rowsQueue s = [] \<and> streamEnd s"
  using assms
  by (cases "streamError s"; cases "rowsQueue s = []"; cases "streamEnd s")
     (simp_all add: nextRowsQueue_def)

lemma read_conserves:
  "concat (map (\<lambda>b. b @ LINEBRK) (rowsQueue (read chunk s))) @ buffer (read chunk s)
     = concat (map (\<lambda>b. b @ LINEBRK) (rowsQueue s)) @ buffer s @ chunk"
proof (cases "sublist LINEBRK (buffer s @ chunk)")
  case True
  then obtain u v where uv: "buffer s @ chunk = u @ LINEBRK @ v" "\<not> sublist LINEBRK v"
    using last_terminator by blast
  then have "read chunk s = s\<lparr>buffer := v, rowsQueue := rowsQueue s @ [u]\<rparr>"
    by (rule read_found)
  with uv(1) show ?thesis by simp
next
  case False
  then show ?thesis by (simp add: read_none)
qed

lemma fold_read_conserves:
  "concat (map (\<lambda>b. b @ LINEBRK) (rowsQueue (fold read chunks s))) @ buffer (fold read chunks s)
     = concat (map (\<lambda>b. b @ LINEBRK) (rowsQueue s)) @ buffer s @ concat chunks"
proof (induction chunks arbitrary: s)
  case Nil
  show ?case by simp
next
  case (Cons c chunks)
  show ?case
    using Cons [of "read c s"] read_conserves [of c s] by simp
qed

lemma read_pushes_iff:
  "sublist LINEBRK (buffer s @ chunk) \<longleftrightarrow>
     (\<exists>u. rowsQueue (read chunk s) = rowsQueue s @ [u]
          \<and> buffer s @ chunk = u @ LINEBRK @ buffer (read chunk s))"
proof
  assume "sublist LINEBRK (buffer s @ chunk)"
  then obtain u v where uv: "buffer s @ chunk = u @ LINEBRK @ v" "\<not> sublist LINEBRK v"
    using last_terminator by blast
  then have "read chunk s = s\<lparr>buffer := v, rowsQueue := rowsQueue s @ [u]\<rparr>"
    by (rule read_found)
  with uv(1) show "\<exists>u. rowsQueue (read chunk s) = rowsQueue s @ [u]
          \<and> buffer s @ chunk = u @ LINEBRK @ buffer (read chunk s)"
    by simp
next
  assume "\<exists>u. rowsQueue (read chunk s) = rowsQueue s @ [u]
          \<and> buffer s @ chunk = u @ LINEBRK @ buffer (read chunk s)"
  then obtain u where "buffer s @ chunk = u @ LINEBRK @ buffer (read chunk s)" by blast
  then show "sublist LINEBRK (buffer s @ chunk)" by (metis sublist_appendI)
qed

lemma read_absorbs_iff:
  "\<not> sublist LINEBRK (buffer s @ chunk) \<longleftrightarrow>
     rowsQueue (read chunk s) = rowsQueue s \<and> buffer (read chunk s) = buffer s @ chunk"
proof
  assume "\<not> sublist LINEBRK (buffer s @ chunk)"
  then show "rowsQueue (read chunk s) = rowsQueue s \<and> buffer (read chunk s) = buffer s @ chunk"
    by (simp add: read_none)
next
  assume "rowsQueue (read chunk s) = rowsQueue s \<and> buffer (read chunk s) = buffer s @ chunk"
  then show "\<not> sublist LINEBRK (buffer s @ chunk)"
    using read_buffer_clean [of chunk s] by simp
qed

text \<open>
  Claim C6. The symbol \<open>SKIPERR\<close> is never what the generator throws: after any
  schedule of events and any number of turns, the generator has not finished by throwing
  it. In every state in which the executor rejects with \<open>SKIPERR\<close>, the loop swallows
  it: the generator returns and nothing else of the state changes. So every stream that
  ends after its chunks, with or without content, ends with the generator returned; and
  a file without content, whose stream ends without a chunk, yields no row.
\<close>

theorem sentinel_never_observable:
  "snd (cidTableStream F sched n) \<noteq> Thrown SKIPERR
   \<and> (fst (nextRowsQueue s) = Reject SKIPERR \<longrightarrow>
        await_queue F s = s\<lparr>control := Returned\<rparr>
        \<and> pull F (s\<lparr>control := Awaiting\<rparr>) = s\<lparr>control := Returned\<rparr>)
   \<and> (source_events sched = map Data chunks @ [End] \<and> 2 \<le> n \<longrightarrow>
        snd (cidTableStream F sched n) = Returned)
   \<and> (source_events sched = [End] \<and> 1 \<le> n \<longrightarrow> cidTableStream F sched n = ([], Returned))"
proof (intro conjI impI)
  have "control (init :: ('a, 'b) reader) \<noteq> Thrown SKIPERR"
    by (simp add: init_def)
  then have "control (exec F (sched @ replicate n Pull) init) \<noteq> Thrown SKIPERR"
    by (rule control_exec_sentinel)
  then show "snd (cidTableStream F sched n) \<noteq> Thrown SKIPERR"
    by (simp add: cidTableStream_def Let_def funpow_pull_exec)
  show "cidTableStream F sched n = ([], Returned)"
    if "source_events sched = [End] \<and> 1 \<le> n"
    using that by (intro stream_empty) simp_all
  show "snd (cidTableStream F sched n) = Returned"
    if "source_events sched = map Data chunks @ [End] \<and> 2 \<le> n"
    using that stream_complete [of sched chunks n F] by simp
  assume r: "fst (nextRowsQueue s) = Reject SKIPERR"
  note q = nextRowsQueue_SKIPERR [OF r]
  from q show a: "await_queue F s = s\<lparr>control := Returned\<rparr>"
    by (simp add: await_queue_done)
  from q have "await_queue F (s\<lparr>control := Awaiting\<rparr>) = s\<lparr>control := Returned\<rparr>"
    by (simp add: await_queue_done)
  then show "pull F (s\<lparr>control := Awaiting\<rparr>) = s\<lparr>control := Returned\<rparr>"
    by (simp add: pull_def)
qed

theorem sentinel_never_observable_witness:
  "fst (nextRowsQueue ((init :: (unit, CidRecord) reader)\<lparr>streamEnd := True, skip := False\<rparr>))
     = Reject SKIPERR
   \<and> await_queue CidRecord ((init :: (unit, CidRecord) reader)\<lparr>streamEnd := True, skip := False\<rparr>)
     = init\<lparr>streamEnd := True, skip := False, control := Returned\<rparr>
   \<and> source_events ([Pull, Data (''h'' @ LINEBRK @ ''a'' @ LINEBRK @ ''b''), Pull, End]
        :: unit event list)
     = map Data [''h'' @ LINEBRK @ ''a'' @ LINEBRK @ ''b''] @ [End]
   \<and> (2 :: nat) \<le> 2
   \<and> snd (cidTableStream CidRecord
        ([Pull, Data (''h'' @ LINEBRK @ ''a'' @ LINEBRK @ ''b''), Pull, End] :: unit event list) 2)
     = Returned
   \<and> source_events ([Pull, End] :: unit event list) = [End] \<and> (1 :: nat) \<le> 1
   \<and> cidTableStream CidRecord ([Pull, End] :: unit event list) 1 = ([], Returned)"
proof -
  let ?s = "(init :: (unit, CidRecord) reader)\<lparr>streamEnd := True, skip := False\<rparr>"
  let ?sched = "[Pull, Data (''h'' @ LINEBRK @ ''a'' @ LINEBRK @ ''b''), Pull, End]
        :: unit event list"
  have r: "fst (nextRowsQueue ?s) = Reject SKIPERR"
    by (simp add: nextRowsQueue_def init_def)
  have "await_queue CidRecord ?s = ?s\<lparr>control := Returned\<rparr>"
    by (rule sentinel_never_observable [THEN conjunct2, THEN conjunct1, THEN mp, OF r,
        THEN conjunct1])
  then have a: "await_queue CidRecord ?s = init\<lparr>streamEnd := True, skip := False, control := Returned\<rparr>"
    by simp
  have h2: "source_events ?sched = map Data [''h'' @ LINEBRK @ ''a'' @ LINEBRK @ ''b''] @ [End]"
    by (simp add: source_events_def)
  have n2: "(2 :: nat) \<le> 2" by simp
  have t2: "snd (cidTableStream CidRecord ?sched 2) = Returned"
    by (rule sentinel_never_observable [THEN conjunct2, THEN conjunct2, THEN conjunct1,
        THEN mp, OF conjI [OF h2 n2]])
  have h: "source_events ([Pull, End] :: unit event list) = [End]"
    by (simp add: source_events_def)
  have n: "(1 :: nat) \<le> 1" by simp
  have t: "cidTableStream CidRecord ([Pull, End] :: unit event list) 1 = ([], Returned)"
    by (rule sentinel_never_observable [THEN conjunct2, THEN conjunct2, THEN conjunct2,
        THEN mp, OF conjI [OF h n]])
  show ?thesis
    by (intro conjI) (rule r, rule a, rule h2, rule n2, rule t2, rule h, rule n, rule t)
qed

text \<open>
  Claim C7. After every assembly step, from any state and with any chunk, the buffer
  holds no occurrence of the terminator, and nothing is lost: a terminator occurs in the
  combined buffer exactly when a batch is pushed, and then the combined buffer is that
  batch, one terminator and the retained buffer; otherwise the queue is unchanged and the
  buffer is the combined buffer. Over any sequence of chunks the queued batches, each
  with its terminator, followed by the buffer are the content fed; and the buffer is free
  of terminators in every state the reader reaches, whatever the events.
\<close>

theorem buffer_never_holds_terminator:
  "\<not> sublist LINEBRK (buffer (read chunk s))
   \<and> \<not> sublist LINEBRK (buffer (exec F sched init))
   \<and> \<not> sublist LINEBRK (buffer (fold read chunks (read chunk s)))
   \<and> (sublist LINEBRK (buffer s @ chunk) \<longleftrightarrow>
        (\<exists>u. rowsQueue (read chunk s) = rowsQueue s @ [u]
             \<and> buffer s @ chunk = u @ LINEBRK @ buffer (read chunk s)))
   \<and> ((\<not> sublist LINEBRK (buffer s @ chunk)) \<longleftrightarrow>
        (rowsQueue (read chunk s) = rowsQueue s \<and> buffer (read chunk s) = buffer s @ chunk))
   \<and> concat (map (\<lambda>b. b @ LINEBRK) (rowsQueue (fold read chunks s)))
        @ buffer (fold read chunks s)
      = concat (map (\<lambda>b. b @ LINEBRK) (rowsQueue s)) @ buffer s @ concat chunks"
proof (intro conjI)
  show "\<not> sublist LINEBRK (buffer (read chunk s))"
    by (rule read_buffer_clean)
  show "\<not> sublist LINEBRK (buffer (exec F sched init))"
    using consistent_reached [of F sched] by (simp add: consistent_def)
  show "\<not> sublist LINEBRK (buffer (fold read chunks (read chunk s)))"
  proof (induction chunks rule: rev_induct)
    case Nil
    show ?case by (simp add: read_buffer_clean)
  next
    case (snoc c chunks)
    show ?case by (simp add: read_buffer_clean)
  qed
  show "sublist LINEBRK (buffer s @ chunk) \<longleftrightarrow>
        (\<exists>u. rowsQueue (read chunk s) = rowsQueue s @ [u]
             \<and> buffer s @ chunk = u @ LINEBRK @ buffer (read chunk s))"
    by (rule read_pushes_iff)
  show "(\<not> sublist LINEBRK (buffer s @ chunk)) \<longleftrightarrow>
        (rowsQueue (read chunk s) = rowsQueue s \<and> buffer (read chunk s) = buffer s @ chunk)"
    by (rule read_absorbs_iff)
  show "concat (map (\<lambda>b. b @ LINEBRK) (rowsQueue (fold read chunks s)))
        @ buffer (fold read chunks s)
      = concat (map (\<lambda>b. b @ LINEBRK) (rowsQueue s)) @ buffer s @ concat chunks"
    by (rule fold_read_conserves)
qed

theorem buffer_never_holds_terminator_witness:
  "sublist LINEBRK (buffer ((init :: (unit, unit) reader)\<lparr>buffer := ''a;''\<rparr>)
       @ (CHR 0x0D # CHR 0x0A # ''b'' @ LINEBRK @ ''c''))
   \<and> rowsQueue (read (CHR 0x0D # CHR 0x0A # ''b'' @ LINEBRK @ ''c'')
       ((init :: (unit, unit) reader)\<lparr>buffer := ''a;''\<rparr>)) = [''a'' @ LINEBRK @ ''b'']
   \<and> buffer (read (CHR 0x0D # CHR 0x0A # ''b'' @ LINEBRK @ ''c'')
       ((init :: (unit, unit) reader)\<lparr>buffer := ''a;''\<rparr>)) = ''c''
   \<and> \<not> sublist LINEBRK (buffer (read (CHR 0x0D # CHR 0x0A # ''b'' @ LINEBRK @ ''c'')
       ((init :: (unit, unit) reader)\<lparr>buffer := ''a;''\<rparr>)))"
proof -
  let ?s = "(init :: (unit, unit) reader)\<lparr>buffer := ''a;''\<rparr>"
  let ?chunk = "CHR 0x0D # CHR 0x0A # ''b'' @ LINEBRK @ ''c''"
  note t = buffer_never_holds_terminator [of ?chunk ?s id "[]" "[]"]
  have c: "buffer ?s @ ?chunk = (''a'' @ LINEBRK @ ''b'') @ LINEBRK @ ''c''"
    by (simp add: LINEBRK_def)
  then have p: "sublist LINEBRK (buffer ?s @ ?chunk)"
    by (metis sublist_appendI)
  from t have "sublist LINEBRK (buffer ?s @ ?chunk) \<longleftrightarrow>
        (\<exists>u. rowsQueue (read ?chunk ?s) = rowsQueue ?s @ [u]
             \<and> buffer ?s @ ?chunk = u @ LINEBRK @ buffer (read ?chunk ?s))"
    by (rule conjunct1 [OF conjunct2 [OF conjunct2 [OF conjunct2]]])
  with p obtain u where u: "rowsQueue (read ?chunk ?s) = rowsQueue ?s @ [u]"
      "buffer ?s @ ?chunk = u @ LINEBRK @ buffer (read ?chunk ?s)"
    by blast
  from t have clean: "\<not> sublist LINEBRK (buffer (read ?chunk ?s))"
    by (rule conjunct1)
  have q: "rowsQueue (read ?chunk ?s) = [''a'' @ LINEBRK @ ''b'']"
    and b: "buffer (read ?chunk ?s) = ''c''"
    by code_simp+
  show ?thesis
    by (intro conjI) (rule p, rule q, rule b, rule clean)
qed


section \<open>Two calls: allocation, footprints and refinement\<close>

lemma put_simps [simp]:
  "cells (put a v h) b = (if b = a then v else cells h b)"
  "free (put a v h) = free h"
  by (simp_all add: put_def)

lemma get_put [simp]:
  "get_err (put a v h) b = (if b = a then (case v of VErr x \<Rightarrow> x | _ \<Rightarrow> None) else get_err h b)"
  "get_bool (put a v h) b = (if b = a then (case v of VBool x \<Rightarrow> x | _ \<Rightarrow> False) else get_bool h b)"
  "get_str (put a v h) b = (if b = a then (case v of VStr x \<Rightarrow> x | _ \<Rightarrow> []) else get_str h b)"
  "get_queue (put a v h) b = (if b = a then (case v of VQueue x \<Rightarrow> x | _ \<Rightarrow> []) else get_queue h b)"
  "get_rows (put a v h) b = (if b = a then (case v of VRows x \<Rightarrow> x | _ \<Rightarrow> []) else get_rows h b)"
  "get_ctl (put a v h) b = (if b = a then (case v of VCtl x \<Rightarrow> x | _ \<Rightarrow> LoopHead) else get_ctl h b)"
  by (simp_all add: get_err_def get_bool_def get_str_def get_queue_def get_rows_def get_ctl_def)

lemma distinct_addrs:
  "distinct (addrs fr) \<longleftrightarrow>
    streamError_at fr \<noteq> streamEnd_at fr \<and>
    streamError_at fr \<noteq> buffer_at fr \<and>
    streamError_at fr \<noteq> rowsQueue_at fr \<and>
    streamError_at fr \<noteq> breakLoop_at fr \<and>
    streamError_at fr \<noteq> skip_at fr \<and>
    streamError_at fr \<noteq> yielded_at fr \<and>
    streamError_at fr \<noteq> control_at fr \<and>
    streamEnd_at fr \<noteq> streamError_at fr \<and>
    streamEnd_at fr \<noteq> buffer_at fr \<and>
    streamEnd_at fr \<noteq> rowsQueue_at fr \<and>
    streamEnd_at fr \<noteq> breakLoop_at fr \<and> streamEnd_at fr \<noteq> skip_at fr \<and>
    streamEnd_at fr \<noteq> yielded_at fr \<and> streamEnd_at fr \<noteq> control_at fr \<and>
    buffer_at fr \<noteq> streamError_at fr \<and> buffer_at fr \<noteq> streamEnd_at fr \<and>
    buffer_at fr \<noteq> rowsQueue_at fr \<and> buffer_at fr \<noteq> breakLoop_at fr \<and>
    buffer_at fr \<noteq> skip_at fr \<and> buffer_at fr \<noteq> yielded_at fr \<and>
    buffer_at fr \<noteq> control_at fr \<and>
    rowsQueue_at fr \<noteq> streamError_at fr \<and>
    rowsQueue_at fr \<noteq> streamEnd_at fr \<and>
    rowsQueue_at fr \<noteq> buffer_at fr \<and>
    rowsQueue_at fr \<noteq> breakLoop_at fr \<and> rowsQueue_at fr \<noteq> skip_at fr \<and>
    rowsQueue_at fr \<noteq> yielded_at fr \<and> rowsQueue_at fr \<noteq> control_at fr \<and>
    breakLoop_at fr \<noteq> streamError_at fr \<and>
    breakLoop_at fr \<noteq> streamEnd_at fr \<and>
    breakLoop_at fr \<noteq> buffer_at fr \<and>
    breakLoop_at fr \<noteq> rowsQueue_at fr \<and> breakLoop_at fr \<noteq> skip_at fr \<and>
    breakLoop_at fr \<noteq> yielded_at fr \<and> breakLoop_at fr \<noteq> control_at fr \<and>
    skip_at fr \<noteq> streamError_at fr \<and> skip_at fr \<noteq> streamEnd_at fr \<and>
    skip_at fr \<noteq> buffer_at fr \<and> skip_at fr \<noteq> rowsQueue_at fr \<and>
    skip_at fr \<noteq> breakLoop_at fr \<and> skip_at fr \<noteq> yielded_at fr \<and>
    skip_at fr \<noteq> control_at fr \<and> yielded_at fr \<noteq> streamError_at fr \<and>
    yielded_at fr \<noteq> streamEnd_at fr \<and> yielded_at fr \<noteq> buffer_at fr \<and>
    yielded_at fr \<noteq> rowsQueue_at fr \<and> yielded_at fr \<noteq> breakLoop_at fr \<and>
    yielded_at fr \<noteq> skip_at fr \<and> yielded_at fr \<noteq> control_at fr \<and>
    control_at fr \<noteq> streamError_at fr \<and>
    control_at fr \<noteq> streamEnd_at fr \<and> control_at fr \<noteq> buffer_at fr \<and>
    control_at fr \<noteq> rowsQueue_at fr \<and> control_at fr \<noteq> breakLoop_at fr \<and>
    control_at fr \<noteq> skip_at fr \<and> control_at fr \<noteq> yielded_at fr"
  by (auto simp: addrs_def)

lemma load_cong:
  assumes "\<And>a. a \<in> set (addrs fr) \<Longrightarrow> cells h' a = cells h a"
  shows "load fr h' = load fr h"
  using assms
  by (simp add: load_def addrs_def get_err_def get_bool_def get_str_def get_queue_def
      get_rows_def get_ctl_def)

lemma h_read_footprint:
  "a \<notin> set (addrs fr) \<Longrightarrow> cells (h_read fr chunk h) a = cells h a"
  by (auto simp: h_read_def Let_def addrs_def)

lemma h_read_free [simp]: "free (h_read fr chunk h) = free h"
  by (simp add: h_read_def Let_def)

lemma h_read_refines:
  "distinct (addrs fr) \<Longrightarrow> load fr (h_read fr chunk h) = read chunk (load fr h)"
  by (simp add: distinct_addrs h_read_def read_def Let_def load_def)


lemma h_nextRowsQueue_footprint:
  "a \<notin> set (addrs fr) \<Longrightarrow> cells (snd (h_nextRowsQueue fr h)) a = cells h a"
  by (auto simp: h_nextRowsQueue_def Let_def addrs_def split: option.splits)

lemma h_nextRowsQueue_refines:
  "distinct (addrs fr) \<Longrightarrow>
   fst (h_nextRowsQueue fr h) = fst (nextRowsQueue (load fr h))
   \<and> load fr (snd (h_nextRowsQueue fr h)) = snd (nextRowsQueue (load fr h))"
  by (simp add: distinct_addrs h_nextRowsQueue_def nextRowsQueue_def Let_def load_def
      split: option.splits)

lemma h_yield_row_footprint:
  "a \<notin> set (addrs fr) \<Longrightarrow> cells (h_yield_row fr F row h) a = cells h a"
  by (auto simp: h_yield_row_def addrs_def)

lemma h_yield_row_refines:
  "distinct (addrs fr) \<Longrightarrow> load fr (h_yield_row fr F row h) = yield_row F row (load fr h)"
  by (simp add: distinct_addrs h_yield_row_def yield_row_def load_def)

lemma h_for_rows_footprint:
  "a \<notin> set (addrs fr) \<Longrightarrow> cells (h_for_rows fr F completeRows h) a = cells h a"
proof -
  assume a: "a \<notin> set (addrs fr)"
  have "cells (fold (h_yield_row fr F) rows h) a = cells h a" for rows
    by (induction rows arbitrary: h) (simp_all add: h_yield_row_footprint [OF a])
  then show ?thesis by (simp add: h_for_rows_def)
qed

lemma h_for_rows_refines:
  assumes "distinct (addrs fr)"
  shows "load fr (h_for_rows fr F completeRows h) = for_rows F completeRows (load fr h)"
proof -
  have "load fr (fold (h_yield_row fr F) rows h) = fold (yield_row F) rows (load fr h)" for rows
    by (induction rows arbitrary: h) (simp_all add: h_yield_row_refines [OF assms])
  then show ?thesis by (simp add: h_for_rows_def for_rows_def)
qed

lemma h_for_queue_footprint:
  "a \<notin> set (addrs fr) \<Longrightarrow> cells (h_for_queue fr F queue h) a = cells h a"
  unfolding h_for_queue_def
  by (induction queue arbitrary: h) (simp_all add: h_for_rows_footprint)

lemma h_for_queue_refines:
  "distinct (addrs fr) \<Longrightarrow> load fr (h_for_queue fr F queue h) = for_queue F queue (load fr h)"
  unfolding h_for_queue_def for_queue_def
  by (induction queue arbitrary: h) (simp_all add: h_for_rows_refines)

lemma load_put_control:
  "distinct (addrs fr) \<Longrightarrow> load fr (put (control_at fr) (VCtl c) h) = (load fr h)\<lparr>control := c\<rparr>"
  by (simp add: distinct_addrs load_def)

lemma h_after_loop_footprint:
  "a \<notin> set (addrs fr) \<Longrightarrow> cells (h_after_loop fr h) a = cells h a"
  by (auto simp: h_after_loop_def addrs_def split: option.splits)

lemma h_after_loop_refines:
  "distinct (addrs fr) \<Longrightarrow> load fr (h_after_loop fr h) = after_loop (load fr h)"
  by (simp add: h_after_loop_def after_loop_def load_put_control split: option.splits)
     (simp add: load_def)

lemma h_catch_loop_footprint:
  "a \<notin> set (addrs fr) \<Longrightarrow> cells (h_catch_loop fr x h) a = cells h a"
  by (auto simp: h_catch_loop_def h_after_loop_footprint) (simp add: addrs_def)

lemma h_catch_loop_refines:
  "distinct (addrs fr) \<Longrightarrow> load fr (h_catch_loop fr x h) = catch_loop x (load fr h)"
  by (simp add: h_catch_loop_def catch_loop_def h_after_loop_refines load_put_control)

lemma h_await_queue_footprint:
  assumes "a \<notin> set (addrs fr)"
  shows "cells (h_await_queue fr F h) a = cells h a"
proof -
  obtain r h' where r: "h_nextRowsQueue fr h = (r, h')" by (cases "h_nextRowsQueue fr h")
  with h_nextRowsQueue_footprint [OF assms, of h] have h': "cells h' a = cells h a" by simp
  from assms have c: "a \<noteq> control_at fr" by (auto simp: addrs_def)
  show ?thesis
    using r h' c assms
    by (cases r)
       (simp_all add: h_await_queue_def h_for_queue_footprint h_catch_loop_footprint)
qed

lemma h_await_queue_refines:
  assumes "distinct (addrs fr)"
  shows "load fr (h_await_queue fr F h) = await_queue F (load fr h)"
proof -
  obtain r h' where r: "h_nextRowsQueue fr h = (r, h')" by (cases "h_nextRowsQueue fr h")
  obtain r' s' where r': "nextRowsQueue (load fr h) = (r', s')"
    by (cases "nextRowsQueue (load fr h)")
  from h_nextRowsQueue_refines [OF assms, of h] r r'
  have eq: "r' = r" "s' = load fr h'" by simp_all
  show ?thesis
    using r r' eq assms
    by (cases r)
       (simp_all add: h_await_queue_def await_queue_def h_for_queue_refines
          h_catch_loop_refines load_put_control)
qed

lemma h_pull_footprint:
  "a \<notin> set (addrs fr) \<Longrightarrow> cells (h_pull fr F h) a = cells h a"
  by (simp add: h_pull_def h_await_queue_footprint h_after_loop_footprint
      split: control.splits)

lemma load_fields:
  "control (load fr h) = get_ctl h (control_at fr)"
  "breakLoop (load fr h) = get_bool h (breakLoop_at fr)"
  "streamError (load fr h) = get_err h (streamError_at fr)"
  "yielded (load fr h) = get_rows h (yielded_at fr)"
  by (simp_all add: load_def)

lemma h_pull_refines:
  "distinct (addrs fr) \<Longrightarrow> load fr (h_pull fr F h) = pull F (load fr h)"
  by (cases "get_ctl h (control_at fr)")
     (auto simp: h_pull_def pull_def load_fields h_await_queue_refines h_after_loop_refines)

lemma h_step_footprint:
  "a \<notin> set (addrs fr) \<Longrightarrow> cells (h_step fr F ev h) a = cells h a"
  by (cases ev) (auto simp: h_step_def h_read_footprint h_pull_footprint addrs_def)

lemma h_step_refines:
  "distinct (addrs fr) \<Longrightarrow> load fr (h_step fr F ev h) = step F ev (load fr h)"
  by (cases ev)
     (simp_all add: h_step_def h_read_refines h_pull_refines,
      simp_all add: distinct_addrs load_def)

lemma h_step_other:
  assumes "set (addrs fr) \<inter> set (addrs fr') = {}"
  shows "load fr' (h_step fr F ev h) = load fr' h"
proof (rule load_cong)
  fix a assume "a \<in> set (addrs fr')"
  with assms have "a \<notin> set (addrs fr)" by auto
  then show "cells (h_step fr F ev h) a = cells h a" by (rule h_step_footprint)
qed


lemma enter_frame:
  "fst (enter h) =
     \<lparr>streamError_at = free h, streamEnd_at = free h + 1, buffer_at = free h + 2,
      rowsQueue_at = free h + 3, breakLoop_at = free h + 4, skip_at = free h + 5,
      yielded_at = free h + 6, control_at = free h + 7\<rparr>"
  by (simp add: enter_def alloc_def Let_def)

lemma enter_free: "free (snd (enter h)) = free h + 8"
  by (simp add: enter_def alloc_def Let_def)

lemma enter_cells: "a < free h \<Longrightarrow> cells (snd (enter h)) a = cells h a"
  by (simp add: enter_def alloc_def Let_def)

lemma enter_addrs: "set (addrs (fst (enter h))) = {free h ..< free h + 8}"
  by (auto simp: enter_frame addrs_def)

lemma enter_distinct: "distinct (addrs (fst (enter h)))"
  by (simp add: enter_frame addrs_def)

lemma enter_load: "load (fst (enter h)) (snd (enter h)) = init"
  by (simp add: enter_def alloc_def Let_def load_def init_def get_err_def get_bool_def
      get_str_def get_queue_def get_rows_def get_ctl_def)

lemma enter_disjoint:
  "set (addrs (fst (enter h))) \<inter> set (addrs (fst (enter (snd (enter h))))) = {}"
  by (simp add: enter_addrs enter_free)

lemma enter_load_earlier:
  "load (fst (enter h)) (snd (enter (snd (enter h)))) = init"
proof -
  have "load (fst (enter h)) (snd (enter (snd (enter h)))) = load (fst (enter h)) (snd (enter h))"
  proof (rule load_cong)
    fix a assume "a \<in> set (addrs (fst (enter h)))"
    then have "a < free (snd (enter h))" by (simp add: enter_addrs enter_free)
    then show "cells (snd (enter (snd (enter h)))) a = cells (snd (enter h)) a"
      by (rule enter_cells)
  qed
  then show ?thesis by (simp add: enter_load)
qed

lemma first_call_simps [simp]:
  "first_call [] = []"
  "first_call (Inl x # evs) = x # first_call evs"
  "first_call (Inr y # evs) = first_call evs"
  by (simp_all add: first_call_def)

lemma second_call_simps [simp]:
  "second_call [] = []"
  "second_call (Inl x # evs) = second_call evs"
  "second_call (Inr y # evs) = y # second_call evs"
  by (simp_all add: second_call_def)

lemma two_step_fold:
  assumes d1: "distinct (addrs fr1)" and d2: "distinct (addrs fr2)"
    and dj: "set (addrs fr1) \<inter> set (addrs fr2) = {}"
  shows "load fr1 (fold (two_step fr1 fr2 F G) sched h) = exec F (first_call sched) (load fr1 h)
       \<and> load fr2 (fold (two_step fr1 fr2 F G) sched h) = exec G (second_call sched) (load fr2 h)"
proof (induction sched arbitrary: h)
  case Nil
  show ?case by simp
next
  case (Cons ev sched)
  from dj have dj': "set (addrs fr2) \<inter> set (addrs fr1) = {}" by auto
  show ?case
  proof (cases ev)
    case (Inl e)
    then show ?thesis
      using Cons [of "h_step fr1 F e h"]
      by (simp add: two_step_def h_step_refines [OF d1] h_step_other [OF dj])
  next
    case (Inr e)
    then show ?thesis
      using Cons [of "h_step fr2 G e h"]
      by (simp add: two_step_def h_step_refines [OF d2] h_step_other [OF dj'])
  qed
qed

lemma h_pull_funpow:
  assumes "distinct (addrs fr)"
  shows "load fr ((h_pull fr F ^^ n) h) = (pull F ^^ n) (load fr h)"
  by (induction n) (simp_all add: h_pull_refines [OF assms])

lemma h_pull_funpow_other:
  assumes "set (addrs fr) \<inter> set (addrs fr') = {}"
  shows "load fr' ((h_pull fr F ^^ n) h) = load fr' h"
proof (induction n)
  case 0
  show ?case by simp
next
  case (Suc n)
  have "load fr' (h_pull fr F ((h_pull fr F ^^ n) h)) = load fr' ((h_pull fr F ^^ n) h)"
  proof (rule load_cong)
    fix a assume "a \<in> set (addrs fr')"
    with assms have "a \<notin> set (addrs fr)" by auto
    then show "cells (h_pull fr F ((h_pull fr F ^^ n) h)) a = cells ((h_pull fr F ^^ n) h) a"
      by (rule h_pull_footprint)
  qed
  with Suc show ?case by simp
qed

lemma twoCalls_alone:
  "twoCalls F G h0 sched n m
     = (cidTableStream F (first_call sched) n, cidTableStream G (second_call sched) m)"
proof -
  let ?fr1 = "fst (enter h0)" and ?h1 = "snd (enter h0)"
  let ?fr2 = "fst (enter ?h1)" and ?h2 = "snd (enter ?h1)"
  let ?h3 = "fold (two_step ?fr1 ?fr2 F G) sched ?h2"
  let ?h4 = "(h_pull ?fr1 F ^^ n) ?h3"
  let ?h5 = "(h_pull ?fr2 G ^^ m) ?h4"
  have d1: "distinct (addrs ?fr1)" and d2: "distinct (addrs ?fr2)"
    by (rule enter_distinct)+
  have dj: "set (addrs ?fr1) \<inter> set (addrs ?fr2) = {}" by (rule enter_disjoint)
  then have dj': "set (addrs ?fr2) \<inter> set (addrs ?fr1) = {}" by auto
  note f = two_step_fold [OF d1 d2 dj, of F G sched ?h2]
  have l1: "load ?fr1 ?h3 = exec F (first_call sched) init"
    using f by (simp add: enter_load_earlier)
  have l2: "load ?fr2 ?h3 = exec G (second_call sched) init"
    using f by (simp add: enter_load)
  have "load ?fr1 ?h5 = load ?fr1 ?h4" by (rule h_pull_funpow_other [OF dj'])
  also have "\<dots> = (pull F ^^ n) (load ?fr1 ?h3)" by (rule h_pull_funpow [OF d1])
  finally have r1: "load ?fr1 ?h5 = (pull F ^^ n) (exec F (first_call sched) init)"
    by (simp add: l1)
  have "load ?fr2 ?h5 = (pull G ^^ m) (load ?fr2 ?h4)" by (rule h_pull_funpow [OF d2])
  also have "load ?fr2 ?h4 = load ?fr2 ?h3" by (rule h_pull_funpow_other [OF dj])
  finally have r2: "load ?fr2 ?h5 = (pull G ^^ m) (exec G (second_call sched) init)"
    by (simp add: l2)
  have "twoCalls F G h0 sched n m
      = ((yielded (load ?fr1 ?h5), control (load ?fr1 ?h5)),
         (yielded (load ?fr2 ?h5), control (load ?fr2 ?h5)))"
    by (simp add: twoCalls_def Let_def split_def load_def)
  then show ?thesis
    by (simp only: r1 r2 cidTableStream_def Let_def)
qed


text \<open>
  Claim C8. The variables of the reading state are declared in the body of
  \<open>cidTableStream\<close>, so every call allocates cells of its own: the cells of two calls
  are disjoint, and no callback of a call writes a cell outside the cells of that call.
  Hence, whatever the interleaving of their events on the one heap, each call ends as it
  would alone on its own events; and when both read the same content with the same
  factory, in whatever chunks and at whatever pace, both yield the same rows in the same
  order, those of the reference split.
\<close>

theorem calls_share_no_state:
  "set (addrs (fst (enter h0))) \<inter> set (addrs (fst (enter (snd (enter h0))))) = {}
   \<and> (a \<notin> set (addrs fr) \<longrightarrow> cells (h_step fr F ev h) a = cells h a)
   \<and> twoCalls F G h0 sched n m
       = (cidTableStream F (first_call sched) n, cidTableStream G (second_call sched) m)
   \<and> (source_events (first_call sched) = map Data chunks @ [End]
      \<and> source_events (second_call sched) = map Data chunks' @ [End]
      \<and> concat chunks = concat chunks' \<and> 2 \<le> n \<and> 2 \<le> m
      \<longrightarrow> fst (twoCalls F F h0 sched n m) = snd (twoCalls F F h0 sched n m)
         \<and> fst (twoCalls F F h0 sched n m) = (reference_rows F (concat chunks), Returned))"
proof (intro conjI impI)
  show "set (addrs (fst (enter h0))) \<inter> set (addrs (fst (enter (snd (enter h0))))) = {}"
    by (rule enter_disjoint)
  show "cells (h_step fr F ev h) a = cells h a" if "a \<notin> set (addrs fr)"
    using that by (rule h_step_footprint)
  show "twoCalls F G h0 sched n m
       = (cidTableStream F (first_call sched) n, cidTableStream G (second_call sched) m)"
    by (rule twoCalls_alone)
  assume a: "source_events (first_call sched) = map Data chunks @ [End]
      \<and> source_events (second_call sched) = map Data chunks' @ [End]
      \<and> concat chunks = concat chunks' \<and> 2 \<le> n \<and> 2 \<le> m"
  then have 1: "cidTableStream F (first_call sched) n = (reference_rows F (concat chunks), Returned)"
    by (intro stream_complete) simp_all
  from a have 2: "cidTableStream F (second_call sched) m = (reference_rows F (concat chunks'), Returned)"
    by (intro stream_complete) simp_all
  from a 1 2 show "fst (twoCalls F F h0 sched n m) = snd (twoCalls F F h0 sched n m)"
    by (simp add: twoCalls_alone)
  from 1 show "fst (twoCalls F F h0 sched n m) = (reference_rows F (concat chunks), Returned)"
    by (simp add: twoCalls_alone)
qed

theorem calls_share_no_state_witness:
  "addrs (fst (enter (\<lparr>cells = \<lambda>a. VBool False, free = 0\<rparr> :: (unit, CidRecord) heap)))
     = [0, 1, 2, 3, 4, 5, 6, 7]
   \<and> addrs (fst (enter (snd (enter
        (\<lparr>cells = \<lambda>a. VBool False, free = 0\<rparr> :: (unit, CidRecord) heap)))))
     = [8, 9, 10, 11, 12, 13, 14, 15]
   \<and> (10 :: nat) \<notin> set (addrs (fst (enter
        (\<lparr>cells = \<lambda>a. VBool False, free = 0\<rparr> :: (unit, CidRecord) heap))))
   \<and> cells (h_step (fst (enter (\<lparr>cells = \<lambda>a. VBool False, free = 0\<rparr>
          :: (unit, CidRecord) heap))) CidRecord (Data (''x'' @ LINEBRK))
        (put 10 (VStr ''y'') (\<lparr>cells = \<lambda>a. VBool False, free = 0\<rparr>
          :: (unit, CidRecord) heap))) 10
     = VStr ''y''
   \<and> source_events (first_call ([Inl Pull, Inr Pull, Inl (Data (''h'' @ LINEBRK @ ''a'')),
       Inr (Data (''h'' @ LINEBRK @ ''a;b'' @ LINEBRK)), Inr End, Inr Pull,
       Inl (Data ('';b'' @ LINEBRK)), Inl End] :: (unit event + unit event) list))
     = map Data [''h'' @ LINEBRK @ ''a'', '';b'' @ LINEBRK] @ [End]
   \<and> source_events (second_call ([Inl Pull, Inr Pull, Inl (Data (''h'' @ LINEBRK @ ''a'')),
       Inr (Data (''h'' @ LINEBRK @ ''a;b'' @ LINEBRK)), Inr End, Inr Pull,
       Inl (Data ('';b'' @ LINEBRK)), Inl End] :: (unit event + unit event) list))
     = map Data [''h'' @ LINEBRK @ ''a;b'' @ LINEBRK] @ [End]
   \<and> concat [''h'' @ LINEBRK @ ''a'', '';b'' @ LINEBRK]
     = concat [''h'' @ LINEBRK @ ''a;b'' @ LINEBRK]
   \<and> (2 :: nat) \<le> 2 \<and> (2 :: nat) \<le> 3
   \<and> fst (twoCalls CidRecord CidRecord
       (\<lparr>cells = \<lambda>a. VBool False, free = 0\<rparr> :: (unit, CidRecord) heap)
       ([Inl Pull, Inr Pull, Inl (Data (''h'' @ LINEBRK @ ''a'')),
       Inr (Data (''h'' @ LINEBRK @ ''a;b'' @ LINEBRK)), Inr End, Inr Pull,
       Inl (Data ('';b'' @ LINEBRK)), Inl End] :: (unit event + unit event) list) 2 3)
     = ([\<lparr>columns = [''a'', ''b'']\<rparr>], Returned)
   \<and> snd (twoCalls CidRecord CidRecord
       (\<lparr>cells = \<lambda>a. VBool False, free = 0\<rparr> :: (unit, CidRecord) heap)
       ([Inl Pull, Inr Pull, Inl (Data (''h'' @ LINEBRK @ ''a'')),
       Inr (Data (''h'' @ LINEBRK @ ''a;b'' @ LINEBRK)), Inr End, Inr Pull,
       Inl (Data ('';b'' @ LINEBRK)), Inl End] :: (unit event + unit event) list) 2 3)
     = ([\<lparr>columns = [''a'', ''b'']\<rparr>], Returned)"
proof -
  let ?h0 = "\<lparr>cells = \<lambda>a. VBool False, free = 0\<rparr> :: (unit, CidRecord) heap"
  let ?sched = "[Inl Pull, Inr Pull, Inl (Data (''h'' @ LINEBRK @ ''a'')),
       Inr (Data (''h'' @ LINEBRK @ ''a;b'' @ LINEBRK)), Inr End, Inr Pull,
       Inl (Data ('';b'' @ LINEBRK)), Inl End] :: (unit event + unit event) list"
  let ?c1 = "[''h'' @ LINEBRK @ ''a'', '';b'' @ LINEBRK]"
  let ?c2 = "[''h'' @ LINEBRK @ ''a;b'' @ LINEBRK]"
  have f1: "addrs (fst (enter ?h0)) = [0, 1, 2, 3, 4, 5, 6, 7]"
    by (simp add: enter_frame addrs_def)
  have f2: "addrs (fst (enter (snd (enter ?h0)))) = [8, 9, 10, 11, 12, 13, 14, 15]"
    by (simp add: enter_frame enter_free addrs_def)
  have o: "(10 :: nat) \<notin> set (addrs (fst (enter ?h0)))"
    by (simp add: f1)
  note t = calls_share_no_state [of ?h0 10 "fst (enter ?h0)" CidRecord
      "Data (''x'' @ LINEBRK)" "put 10 (VStr ''y'') ?h0" CidRecord ?sched 2 3 ?c1 ?c2]
  from t have "10 \<notin> set (addrs (fst (enter ?h0))) \<longrightarrow>
      cells (h_step (fst (enter ?h0)) CidRecord (Data (''x'' @ LINEBRK))
        (put 10 (VStr ''y'') ?h0)) 10 = cells (put 10 (VStr ''y'') ?h0) 10"
    by (rule conjunct1 [OF conjunct2])
  with o have w: "cells (h_step (fst (enter ?h0)) CidRecord (Data (''x'' @ LINEBRK))
        (put 10 (VStr ''y'') ?h0)) 10 = VStr ''y''"
    by simp
  have h1: "source_events (first_call ?sched) = map Data ?c1 @ [End]"
    by (simp add: source_events_def)
  have h2: "source_events (second_call ?sched) = map Data ?c2 @ [End]"
    by (simp add: source_events_def)
  have c: "concat ?c1 = concat ?c2" by simp
  have n: "(2 :: nat) \<le> 2" and m: "(2 :: nat) \<le> 3" by simp_all
  have r: "reference_rows CidRecord (concat ?c1) = [\<lparr>columns = [''a'', ''b'']\<rparr>]"
    by code_simp
  note u = t [THEN conjunct2, THEN conjunct2, THEN conjunct2, THEN mp,
      OF conjI [OF h1 conjI [OF h2 conjI [OF c conjI [OF n m]]]]]
  from u have "fst (twoCalls CidRecord CidRecord ?h0 ?sched 2 3)
      = (reference_rows CidRecord (concat ?c1), Returned)"
    by (rule conjunct2)
  then have t1: "fst (twoCalls CidRecord CidRecord ?h0 ?sched 2 3)
      = ([\<lparr>columns = [''a'', ''b'']\<rparr>], Returned)"
    by (simp only: r)
  from u have "fst (twoCalls CidRecord CidRecord ?h0 ?sched 2 3)
      = snd (twoCalls CidRecord CidRecord ?h0 ?sched 2 3)"
    by (rule conjunct1)
  with t1 have t2: "snd (twoCalls CidRecord CidRecord ?h0 ?sched 2 3)
      = ([\<lparr>columns = [''a'', ''b'']\<rparr>], Returned)"
    by (simp only:)
  show ?thesis
    by (intro conjI)
       (rule f1, rule f2, rule o, rule w, rule h1, rule h2, rule c, rule n, rule m,
        rule t1, rule t2)
qed

text \<open>
  Claim C9. With the default factory \<open>CidRecord\<close>, the content
  \<open>h1;h2;h3;\r\nv1;v2;v3;\r\n\<close>, in whatever chunks it arrives, yields exactly one row,
  whose columns are \<open>v1\<close>, \<open>v2\<close> and \<open>v3\<close>, and the generator returns.
\<close>

theorem scenario_header_and_one_row:
  assumes "source_events sched = map Data chunks @ [End]" and "2 \<le> n"
    and "concat chunks = ''h1;h2;h3'' @ LINEBRK @ ''v1;v2;v3'' @ LINEBRK"
  shows "cidTableStream CidRecord sched n = ([\<lparr>columns = [''v1'', ''v2'', ''v3'']\<rparr>], Returned)"
proof -
  have "reference_rows CidRecord (''h1;h2;h3'' @ LINEBRK @ ''v1;v2;v3'' @ LINEBRK)
      = [\<lparr>columns = [''v1'', ''v2'', ''v3'']\<rparr>]"
    by code_simp
  with stream_complete [OF assms(1,2), of CidRecord] assms(3) show ?thesis by simp
qed

theorem scenario_header_and_one_row_witness:
  "source_events ([Pull, Data (''h1;h2;h3'' @ LINEBRK @ ''v1;v2;v3'' @ LINEBRK), End]
       :: unit event list)
     = map Data [''h1;h2;h3'' @ LINEBRK @ ''v1;v2;v3'' @ LINEBRK] @ [End]
   \<and> (2 :: nat) \<le> 2
   \<and> concat [''h1;h2;h3'' @ LINEBRK @ ''v1;v2;v3'' @ LINEBRK]
     = ''h1;h2;h3'' @ LINEBRK @ ''v1;v2;v3'' @ LINEBRK
   \<and> cidTableStream CidRecord ([Pull, Data (''h1;h2;h3'' @ LINEBRK @ ''v1;v2;v3'' @ LINEBRK), End]
       :: unit event list) 2
     = ([\<lparr>columns = [''v1'', ''v2'', ''v3'']\<rparr>], Returned)"
proof -
  let ?sched = "[Pull, Data (''h1;h2;h3'' @ LINEBRK @ ''v1;v2;v3'' @ LINEBRK), End]
       :: unit event list"
  have h: "source_events ?sched
      = map Data [''h1;h2;h3'' @ LINEBRK @ ''v1;v2;v3'' @ LINEBRK] @ [End]"
    by (simp add: source_events_def)
  have n: "(2 :: nat) \<le> 2" by simp
  have c: "concat [''h1;h2;h3'' @ LINEBRK @ ''v1;v2;v3'' @ LINEBRK]
      = ''h1;h2;h3'' @ LINEBRK @ ''v1;v2;v3'' @ LINEBRK"
    by simp
  note t = scenario_header_and_one_row [OF h n c]
  show ?thesis
    by (intro conjI) (rule h, rule n, rule c, rule t)
qed

text \<open>
  Claim C10. The getters of \<open>Cid10Chapter\<close> are not total: on a row with at most four
  columns, such as the empty row, \<open>$columns[4]\<close> is \<open>undefined\<close> and both
  \<open>abbreviation\<close> and \<open>roman\<close> throw a \<open>TypeError\<close>; the constructor has not
  checked the number of columns.
\<close>

theorem chapter_getters_throw:
  assumes "length (split_js row '';'') \<le> 4"
  shows "Cid10Chapter_abbreviation (Cid10Chapter row) = Inl TypeError
         \<and> Cid10Chapter_roman (Cid10Chapter row) = Inl TypeError"
  using assms
  by (simp add: Cid10Chapter_abbreviation_def Cid10Chapter_roman_def Cid10Chapter_def
      CidRecord_def column_def ABBREVIATION_def)

theorem chapter_getters_throw_witness:
  "length (split_js '''' '';'') \<le> 4
   \<and> columns (Cid10Chapter '''') = ['''']
   \<and> Cid10Chapter_abbreviation (Cid10Chapter '''') = Inl TypeError
   \<and> Cid10Chapter_roman (Cid10Chapter '''') = Inl TypeError"
proof -
  have s: "split_js '''' '';'' = ['''']" by (simp add: split_js.simps)
  then have l: "length (split_js '''' '';'') \<le> 4" by simp
  have c: "columns (Cid10Chapter '''') = ['''']"
    by (simp add: Cid10Chapter_def CidRecord_def s)
  note t = chapter_getters_throw [OF l]
  show ?thesis
    by (intro conjI) (rule l, rule c, rule t [THEN conjunct1], rule t [THEN conjunct2])
qed


end
